theory Spec2Isabelle
  imports Main "HOL-Library.Char_ord" "HOL-Library.List_Lexorder" "HOL-Library.Product_Lexorder"
begin

section \<open>JavaScript strings and numbers\<close>

text \<open>
  Strings are lists of characters; the development is about ASCII text, where a character
  is one UTF-16 code unit and one byte. Numbers that hold coordinates, scores and process
  ids are modelled as unbounded integers: the source computes with IEEE doubles, which are
  exact on integers below \<open>2^53\<close>; \<open>NaN\<close> is the value \<open>None\<close> of \<open>parseInt\<close>.
\<close>

definition is_space :: "char \<Rightarrow> bool" where
  \<comment> \<open>the ASCII members of the WhiteSpace and LineTerminator classes that \<open>trim\<close> and \<open>parseInt\<close> skip\<close>
  "is_space c = (of_char c \<in> {9, 10, 11, 12, 13, 32 :: nat})"

definition trim :: "string \<Rightarrow> string" where
  \<comment> \<open>\<open>String.prototype.trim\<close>\<close>
  "trim s = rev (dropWhile is_space (rev (dropWhile is_space s)))"

fun split_on :: "char \<Rightarrow> string \<Rightarrow> string list" where
  \<comment> \<open>\<open>s.split(c)\<close> for a one-character separator: never empty, \<open>''''.split(c) = ['''']\<close>\<close>
  "split_on c [] = [[]]"
| "split_on c (x # xs) =
     (if x = c then [] # split_on c xs
      else (case split_on c xs of [] \<Rightarrow> [[x]] | y # ys \<Rightarrow> (x # y) # ys))"

fun is_prefix :: "string \<Rightarrow> string \<Rightarrow> bool" where
  "is_prefix [] ys = True"
| "is_prefix (x # xs) [] = False"
| "is_prefix (x # xs) (y # ys) = (x = y \<and> is_prefix xs ys)"

fun str_includes :: "string \<Rightarrow> string \<Rightarrow> bool" where
  \<comment> \<open>\<open>s.includes(p)\<close>: \<open>p\<close> occurs in \<open>s\<close> as a contiguous substring\<close>
  "str_includes [] p = (p = [])"
| "str_includes (x # xs) p = (is_prefix p (x # xs) \<or> str_includes xs p)"

definition digit_of :: "char \<Rightarrow> nat option" where
  \<comment> \<open>the value of a digit character in radix up to 36\<close>
  "digit_of c =
     (let k = (of_char c :: nat) in
      if 48 \<le> k \<and> k \<le> 57 then Some (k - 48)
      else if 97 \<le> k \<and> k \<le> 122 then Some (k - 87)
      else if 65 \<le> k \<and> k \<le> 90 then Some (k - 55)
      else None)"

definition is_digit :: "nat \<Rightarrow> char \<Rightarrow> bool" where
  "is_digit R c = (case digit_of c of None \<Rightarrow> False | Some d \<Rightarrow> d < R)"

fun radix_value :: "nat \<Rightarrow> nat \<Rightarrow> string \<Rightarrow> nat" where
  "radix_value R acc [] = acc"
| "radix_value R acc (c # cs) = radix_value R (acc * R + (case digit_of c of None \<Rightarrow> 0 | Some d \<Rightarrow> d)) cs"

definition strip_sign :: "string \<Rightarrow> int \<times> string" where
  "strip_sign s =
     (case s of
        [] \<Rightarrow> (1, [])
      | c # cs \<Rightarrow> if c = CHR ''-'' then (-1, cs) else if c = CHR ''+'' then (1, cs) else (1, s))"

definition parse_digits :: "nat \<Rightarrow> int \<Rightarrow> string \<Rightarrow> int option" where
  \<comment> \<open>the longest prefix of radix-\<open>R\<close> digits; no digit at all is \<open>NaN\<close>\<close>
  "parse_digits R sign s =
     (let Z = takeWhile (is_digit R) s
      in if Z = [] then None else Some (sign * int (radix_value R 0 Z)))"

definition parseInt10 :: "string \<Rightarrow> int option" where
  \<comment> \<open>\<open>parseInt(s, 10)\<close>\<close>
  "parseInt10 s = (case strip_sign (dropWhile is_space s) of (sign, r) \<Rightarrow> parse_digits 10 sign r)"

definition parseInt :: "string \<Rightarrow> int option" where
  \<comment> \<open>\<open>parseInt(s)\<close> with no radix: decimal, or hexadecimal after a \<open>0x\<close>/\<open>0X\<close> prefix\<close>
  "parseInt s =
     (case strip_sign (dropWhile is_space s) of
        (sign, r) \<Rightarrow>
          if is_prefix ''0x'' r \<or> is_prefix ''0X'' r then parse_digits 16 sign (drop 2 r)
          else parse_digits 10 sign r)"

fun show_nat :: "nat \<Rightarrow> string" where
  \<comment> \<open>the decimal numeral of a natural number, as a template literal prints it\<close>
  "show_nat n =
     (if n < 10 then [char_of (48 + n)] else show_nat (n div 10) @ [char_of (48 + n mod 10)])"

declare show_nat.simps [simp del]

definition show_int :: "int \<Rightarrow> string" where
  "show_int i = (if i < 0 then CHR ''-'' # show_nat (nat (- i)) else show_nat (nat i))"

section \<open>The key/value store\<close>

text \<open>
  The Redis database as the program uses it: string keys with an optional time to live
  (locks, cache entries), sorted sets (the interval index) and lists (load metadata).
  A sorted set is a list of (member, score) pairs with distinct members; a key that holds
  no member does not exist.
\<close>

type_synonym zset = "(string \<times> int) list"

record store =
  strings :: "string \<rightharpoonup> string \<times> nat option"
  zsets :: "string \<Rightarrow> zset"
  rlists :: "string \<Rightarrow> string list"

definition GET :: "store \<Rightarrow> string \<Rightarrow> string option" where
  "GET st k = map_option fst (strings st k)"

definition DEL_string :: "store \<Rightarrow> string \<Rightarrow> store" where
  "DEL_string st k = st\<lparr>strings := (strings st)(k := None)\<rparr>"

definition SET_EX_NX :: "store \<Rightarrow> string \<Rightarrow> string \<Rightarrow> nat \<Rightarrow> bool \<times> store" where
  \<comment> \<open>\<open>SET k v EX ttl NX\<close>: only if the key is absent; the flag says whether the reply is \<open>OK\<close>\<close>
  "SET_EX_NX st k v ttl =
     (case strings st k of
        None \<Rightarrow> (True, st\<lparr>strings := (strings st)(k \<mapsto> (v, Some ttl))\<rparr>)
      | Some _ \<Rightarrow> (False, st))"

definition SETEX :: "store \<Rightarrow> string \<Rightarrow> nat \<Rightarrow> string \<Rightarrow> store" where
  "SETEX st k ttl v = st\<lparr>strings := (strings st)(k \<mapsto> (v, Some ttl))\<rparr>"

section \<open>The update lock (updateLock.js)\<close>

text \<open>
  Every function of the module talks to the store through one client; \<open>up\<close> says whether
  the client's commands are answered (\<open>False\<close>: they reject, and the function's
  \<open>catch\<close> block runs). \<open>acquireLock\<close> rethrows, the others answer \<open>false\<close>.
\<close>

datatype kill_result = Delivered | ESRCH | EPERM

record proc_env =
  pid :: int                            \<comment> \<open>\<open>process.pid\<close>\<close>
  now :: nat                            \<comment> \<open>\<open>Date.now()\<close>\<close>
  kill0 :: "int \<Rightarrow> kill_result"         \<comment> \<open>the outcome of \<open>process.kill(pid, 0)\<close>\<close>

definition isProcessRunning :: "proc_env \<Rightarrow> int \<Rightarrow> bool" where
  "isProcessRunning env p = (case kill0 env p of Delivered \<Rightarrow> True | e \<Rightarrow> e \<noteq> ESRCH)"

definition isLockStale :: "proc_env \<Rightarrow> bool \<Rightarrow> store \<Rightarrow> string \<Rightarrow> bool" where
  "isLockStale env up st lockKey =
     (if \<not> up then False
      else (case GET st lockKey of
        None \<Rightarrow> False
      | Some lockValue \<Rightarrow>
          if lockValue = [] then False
          else let parts = split_on CHR ''-'' (trim lockValue) in
            if length parts < 1 then False
            else (case parseInt10 (hd parts) of
              None \<Rightarrow> False
            | Some p \<Rightarrow> if p = pid env then False else \<not> isProcessRunning env p)))"

datatype lock_error = RedisError

definition acquireLock :: "proc_env \<Rightarrow> bool \<Rightarrow> store \<Rightarrow> string \<Rightarrow> nat \<Rightarrow> lock_error + bool \<times> store" where
  "acquireLock env up st lockKey ttlSeconds =
     (if \<not> up then Inl RedisError
      else
        let existingLock = GET st lockKey;
            held = (case existingLock of None \<Rightarrow> False | Some v \<Rightarrow> v \<noteq> [])
        in if held \<and> \<not> isLockStale env up st lockKey then Inr (False, st)
           else
             let st1 = (if held then DEL_string st lockKey else st);
                 lockValue = show_int (pid env) @ ''-'' @ show_nat (now env);
                 (ok, st2) = SET_EX_NX st1 lockKey lockValue ttlSeconds
             in Inr (ok, st2))"

definition compare_and_delete :: "store \<Rightarrow> string \<Rightarrow> string \<Rightarrow> nat \<times> store" where
  \<comment> \<open>the Lua script of \<open>releaseLock\<close>, run atomically by the store\<close>
  "compare_and_delete st key arg =
     (if GET st key = Some arg then (1, DEL_string st key) else (0, st))"

definition releaseLock :: "bool \<Rightarrow> store \<Rightarrow> string \<Rightarrow> string \<Rightarrow> bool \<times> store" where
  "releaseLock up st lockKey lockValue =
     (if lockValue = [] then (False, st)
      else if \<not> up then (False, st)
      else
        let trimmedLockValue = trim lockValue;
            (result, st1) = compare_and_delete st lockKey trimmedLockValue
        in if result = 1 then (True, st1) else (False, st1))"

section \<open>The merger's validation (launch.js)\<close>

text \<open>
  A file is what \<open>fs.statSync\<close> and \<open>readline\<close> report of it: its size in bytes and
  its lines in order. The file system maps a path to the file stored there.
\<close>

record csv_file =
  fsize :: nat
  flines :: "string list"

type_synonym filesystem = "string \<rightharpoonup> csv_file"

fun scan_lines :: "nat \<Rightarrow> bool \<Rightarrow> string list \<Rightarrow> (nat \<times> bool) option" where
  \<comment> \<open>the \<open>for await\<close> loop of \<open>validateCsvFile\<close> from \<open>lineCount\<close> and \<open>headerFound\<close>;
      \<open>None\<close> is a \<open>return false\<close> from inside the loop\<close>
  "scan_lines lineCount headerFound [] = Some (lineCount, headerFound)"
| "scan_lines lineCount headerFound (line # rest) =
     (let lineCount = lineCount + 1 in
      if lineCount = 1 then
        scan_lines lineCount
          (if str_includes line ''start_int'' \<and> str_includes line ''end_int'' \<and> str_includes line ''list''
           then True else headerFound) rest
      else if lineCount \<le> 10 then
        (let parts = split_on CHR ''|'' line in
         if length parts \<noteq> 3 then None
         else if parseInt (parts ! 0) = None \<or> parseInt (parts ! 1) = None then None
         else scan_lines lineCount headerFound rest)
      else Some (lineCount, headerFound))"

definition validateCsvFile :: "filesystem \<Rightarrow> string \<Rightarrow> bool" where
  "validateCsvFile fs path =
     (case fs path of
        None \<Rightarrow> False
      | Some f \<Rightarrow>
          if fsize f = 0 then False
          else if fsize f < 20 then False
          else (case scan_lines 0 False (flines f) of
                  None \<Rightarrow> False
                | Some (lineCount, headerFound) \<Rightarrow>
                    if \<not> headerFound then False
                    else if lineCount < 2 then False
                    else True))"

definition renameSync :: "filesystem \<Rightarrow> string \<Rightarrow> string \<Rightarrow> filesystem" where
  "renameSync fs old new = (if old = new then fs else (fs(new := fs old))(old := None))"

datatype update_error = CsvValidationFailed

definition publish_csv :: "filesystem \<Rightarrow> string \<Rightarrow> update_error + filesystem" where
  \<comment> \<open>\<open>main\<close>, after the staging files are concatenated into \<open>tempCsvFile\<close>: validate, then swap\<close>
  "publish_csv fs csvFile =
     (let tempCsvFile = csvFile @ ''.tmp'' in
      if \<not> validateCsvFile fs tempCsvFile then Inl CsvValidationFailed
      else
        let fs1 = (if fs csvFile \<noteq> None then renameSync fs csvFile (csvFile @ ''.backup'') else fs)
        in Inr (renameSync fs1 tempCsvFile csvFile))"

definition process_stage :: "filesystem \<Rightarrow> string \<Rightarrow> (update_error + unit) \<times> filesystem" where
  \<comment> \<open>with the \<open>catch\<close> block of \<open>main\<close>: a failed update unlinks the temporary file and rethrows\<close>
  "process_stage fs csvFile =
     (case publish_csv fs csvFile of
        Inl err \<Rightarrow> (Inl err, fs(csvFile @ ''.tmp'' := None))
      | Inr fs' \<Rightarrow> (Inr (), fs'))"

section \<open>The range flattener (loadToRedis.js)\<close>

text \<open>
  A row of the merged CSV is \<open>(start_int, end_int, list)\<close>: two integers (the parser maps
  both columns through \<open>parseInt\<close>) and the tag, which stays the JSON text it was written as.
  JSON itself is the runtime's: \<open>decode_tag\<close> stands for \<open>JSON.parse(i)\<close> followed by
  reading and deleting the \<open>type\<close> property; it answers the property key the tag is filed
  under and the tag without its type, or \<open>None\<close> where this throws (text that is not
  JSON, \<open>null\<close>, or a type naming a property every object inherits).
  \<open>JSON_stringify\<close> and \<open>JSON_parse\<close> are the runtime's functions on the objects the
  program builds: a payload object is the list of its properties in the order of their
  creation, each an array of tags (a property whose key is an array index, which the
  runtime would enumerate first, is outside the model).
\<close>

type_synonym row = "int \<times> int \<times> string"

type_synonym 'j payload = "(string \<times> 'j list) list"

datatype 'j jvalue = JNull | JObject "'j payload"

record 'j json_ops =
  decode_tag :: "string \<Rightarrow> (string \<times> 'j) option"
  JSON_stringify :: "'j payload \<Rightarrow> string"
  JSON_parse :: "string \<Rightarrow> 'j jvalue option"

record event =
  ev_n :: int
  ev_a :: string
  ev_e :: bool

definition scratch_of :: "row list \<Rightarrow> event list" where
  \<comment> \<open>the \<open>data\<close> handler: two events per row, pushed in reading order\<close>
  "scratch_of rows =
     concat (map (\<lambda>(start_int, end_int, l).
       [\<lparr>ev_n = start_int, ev_a = l, ev_e = False\<rparr>, \<lparr>ev_n = end_int, ev_a = l, ev_e = True\<rparr>]) rows)"

definition sort_scratch :: "event list \<Rightarrow> event list" where
  \<comment> \<open>\<open>scratch.sort\<close> with the comparator on \<open>(n, e)\<close>; the runtime's sort is stable\<close>
  "sort_scratch evs = sort_key (\<lambda>x. (ev_n x, ev_e x)) evs"

definition uniq :: "string list \<Rightarrow> string list" where
  \<comment> \<open>\<open>[...new Set(s)]\<close>: the first occurrence of each element, in order\<close>
  "uniq s = fold (\<lambda>x acc. if x \<in> set acc then acc else acc @ [x]) s []"

definition push_data :: "string \<Rightarrow> 'j \<Rightarrow> 'j payload \<Rightarrow> 'j payload" where
  \<comment> \<open>\<open>if (!data[type]) data[type] = []; data[type].push(j)\<close>\<close>
  "push_data type j data =
     (if type \<in> fst ` set data
      then map (\<lambda>(k, v). if k = type then (k, v @ [j]) else (k, v)) data
      else data @ [(type, [j])])"

fun build_data :: "'j json_ops \<Rightarrow> string list \<Rightarrow> 'j payload \<Rightarrow> 'j payload option" where
  \<comment> \<open>the \<open>for (const i of s)\<close> loop; \<open>None\<close> when a tag throws\<close>
  "build_data J [] data = Some data"
| "build_data J (i # rest) data =
     (case decode_tag J i of
        None \<Rightarrow> None
      | Some (type, j) \<Rightarrow> build_data J rest (push_data type j data))"

datatype load_error =
  CsvError | RedisFailure | TagError | PipelineErrors nat | EmptyTempKey | SizeMismatch

type_synonym 'j interval_record = "int \<times> int \<times> 'j payload"

definition sweep_step ::
  "'j json_ops \<Rightarrow> string list \<Rightarrow> event \<Rightarrow> event
     \<Rightarrow> load_error + string list \<times> 'j interval_record option" where
  \<comment> \<open>one round of the \<open>for\<close> loop on \<open>cur = scratch[k]\<close> and \<open>nex = scratch[k + 1]\<close>: the
      active tags afterwards, and the record it hands to \<open>zadd\<close>, if any\<close>
  "sweep_step J s cur nex =
     (let s = (if \<not> ev_e cur then s @ [ev_a cur] else remove1 (ev_a cur) s);
          n = (if \<not> ev_e cur then ev_n cur else ev_n cur + 1);
          m = (if \<not> ev_e nex then ev_n nex - 1 else ev_n nex)
      in if n \<le> m \<and> s \<noteq> [] then
           (let s = uniq s in
            case build_data J s [] of
              None \<Rightarrow> Inl TagError
            | Some data \<Rightarrow> Inr (s, Some (n, m, data)))
         else Inr (s, None))"

fun sweep :: "'j json_ops \<Rightarrow> string list \<Rightarrow> event list \<Rightarrow> load_error + 'j interval_record list" where
  \<comment> \<open>the records the loop emits, in order, from the active tags \<open>s\<close> on\<close>
  "sweep J s (cur # nex # rest) =
     (case sweep_step J s cur nex of
        Inl err \<Rightarrow> Inl err
      | Inr (s', out) \<Rightarrow>
          (case sweep J s' (nex # rest) of
             Inl err \<Rightarrow> Inl err
           | Inr recs \<Rightarrow> Inr (case out of None \<Rightarrow> recs | Some r \<Rightarrow> r # recs)))"
| "sweep J s evs = Inr []"

definition flatten :: "'j json_ops \<Rightarrow> row list \<Rightarrow> load_error + 'j interval_record list" where
  "flatten J rows = sweep J [] (sort_scratch (scratch_of rows))"

section \<open>The loader and the sorted index\<close>

definition ZADD :: "zset \<Rightarrow> string \<Rightarrow> int \<Rightarrow> zset" where
  "ZADD zs member score =
     (if member \<in> fst ` set zs
      then map (\<lambda>(mem, sc). if mem = member then (mem, score) else (mem, sc)) zs
      else zs @ [(member, score)])"

definition ZCARD :: "store \<Rightarrow> string \<Rightarrow> nat" where
  "ZCARD st k = length (zsets st k)"

definition DEL_zset :: "store \<Rightarrow> string \<Rightarrow> store" where
  "DEL_zset st k = st\<lparr>zsets := (zsets st)(k := [])\<rparr>"

definition RENAME :: "store \<Rightarrow> string \<Rightarrow> string \<Rightarrow> store" where
  "RENAME st old new =
     (if old = new then st else st\<lparr>zsets := ((zsets st)(new := zsets st old))(old := [])\<rparr>)"

definition LPUSH :: "store \<Rightarrow> string \<Rightarrow> string \<Rightarrow> store" where
  "LPUSH st k v = st\<lparr>rlists := (rlists st)(k := v # rlists st k)\<rparr>"

definition ZRANGEBYSCORE_first :: "zset \<Rightarrow> int \<Rightarrow> string list" where
  \<comment> \<open>\<open>ZRANGEBYSCORE key q +inf LIMIT 0 1\<close>: members are ordered by score, then by member\<close>
  "ZRANGEBYSCORE_first zs q =
     (case filter (\<lambda>(mem, sc). q \<le> sc) zs of
        [] \<Rightarrow> []
      | x # xs \<Rightarrow> [fst (arg_min_list (\<lambda>(mem, sc). (sc, mem)) (x # xs))])"

text \<open>
  What the loader cannot decide: whether the metadata commands reject, which \<open>zadd\<close>
  commands the store answers with an error, what other clients do to the live key between
  the rename and the size check, and whether the clean-up commands of the \<open>catch\<close>
  block reject. \<open>meta_entry\<close> is the JSON text of the metadata entry for a line count.
  The other commands are taken to be answered, and the \<open>DEL\<close> of the temporary key that
  \<open>load\<close> issues first to be executed before anything else.
\<close>

record load_env =
  meta_fails :: bool
  meta_entry :: "nat \<Rightarrow> string"
  zadd_fails :: "string \<Rightarrow> bool"
  interference :: "zset \<Rightarrow> zset"
  cleanup_fails :: bool

definition tempKey :: string where
  "tempKey = ''arfa45e13grh785gEV4wfw$WF7h''"

definition batchSize :: nat where
  "batchSize = 100000"

type_synonym zadd_cmd = "string \<times> int"

definition member_of :: "'j json_ops \<Rightarrow> 'j interval_record \<Rightarrow> string" where
  \<comment> \<open>the template literal \<open>n|m|JSON.stringify(data)\<close>\<close>
  "member_of J r =
     (case r of (n, m, data) \<Rightarrow> show_int n @ ''|'' @ show_int m @ ''|'' @ JSON_stringify J data)"

definition zadd_of :: "'j json_ops \<Rightarrow> 'j interval_record \<Rightarrow> zadd_cmd" where
  \<comment> \<open>\<open>pipeline.zadd(tempKey, m, member)\<close>\<close>
  "zadd_of J r = (case r of (n, m, data) \<Rightarrow> (member_of J r, m))"

fun exec_pipeline :: "load_env \<Rightarrow> zadd_cmd list \<Rightarrow> zset \<Rightarrow> zset \<times> nat" where
  \<comment> \<open>\<open>pipeline.exec()\<close> on the temporary key: the key afterwards and the number of error replies\<close>
  "exec_pipeline env [] zs = (zs, 0)"
| "exec_pipeline env ((member, score) # cmds) zs =
     (if zadd_fails env member
      then (case exec_pipeline env cmds zs of (zs', errors) \<Rightarrow> (zs', Suc errors))
      else exec_pipeline env cmds (ZADD zs member score))"

definition batch_start :: "load_env \<Rightarrow> nat \<Rightarrow> zadd_cmd list \<Rightarrow> zset \<Rightarrow> zadd_cmd list \<times> zset" where
  \<comment> \<open>the head of the loop body: every \<open>batchSize\<close> rounds the queued commands are executed
      (their replies are dropped) and a new pipeline is started\<close>
  "batch_start env k pipeline tmp =
     (if k mod batchSize = 0 then ([], fst (exec_pipeline env pipeline tmp)) else (pipeline, tmp))"

fun flatten_loop ::
  "load_env \<Rightarrow> 'j json_ops \<Rightarrow> nat \<Rightarrow> string list \<Rightarrow> zadd_cmd list \<Rightarrow> zset \<Rightarrow> event list
     \<Rightarrow> load_error option \<times> zadd_cmd list \<times> zset" where
  \<comment> \<open>the \<open>for\<close> loop from index \<open>k\<close> with active tags \<open>s\<close>, the queued commands and the
      temporary key: the exception thrown, if any, and the pipeline and the key afterwards\<close>
  "flatten_loop env J k s pipeline tmp (cur # nex # rest) =
     (case batch_start env k pipeline tmp of
        (pipeline, tmp) \<Rightarrow>
          (case sweep_step J s cur nex of
             Inl err \<Rightarrow> (Some err, pipeline, tmp)
           | Inr (s', out) \<Rightarrow>
               flatten_loop env J (k + 1) s'
                 (case out of None \<Rightarrow> pipeline | Some r \<Rightarrow> pipeline @ [zadd_of J r]) tmp (nex # rest)))"
| "flatten_loop env J k s pipeline tmp evs = (None, pipeline, tmp)"

definition load_try ::
  "load_env \<Rightarrow> 'j json_ops \<Rightarrow> string \<Rightarrow> row list \<Rightarrow> store \<Rightarrow> load_error option \<times> store" where
  \<comment> \<open>the \<open>try\<close> block of the \<open>end\<close> handler: the error thrown, if any, and the store then\<close>
  "load_try env J redisPrefix rows st =
     (if meta_fails env then (Some RedisFailure, st)
      else
        let st = LPUSH st (redisPrefix @ ''ipListSize'') (meta_entry env (length rows));
            scratch = sort_scratch (scratch_of rows);
            (err, pipeline, tmp) = flatten_loop env J 0 [] [] (zsets st tempKey) scratch;
            st = st\<lparr>zsets := (zsets st)(tempKey := tmp)\<rparr>
        in case err of
             Some e \<Rightarrow> (Some e, st)
           | None \<Rightarrow>
               (let (tmp, errors) = exec_pipeline env pipeline tmp;
                    st = st\<lparr>zsets := (zsets st)(tempKey := tmp)\<rparr>
                in if errors > 0 then (Some (PipelineErrors errors), st)
                   else
                     let tempKeySize = ZCARD st tempKey in
                     if tempKeySize = 0 then (Some EmptyTempKey, st)
                     else
                       let live = redisPrefix @ ''ranges'';
                           st = RENAME st tempKey live;
                           st = st\<lparr>zsets := (zsets st)(live := interference env (zsets st live))\<rparr>;
                           finalKeySize = ZCARD st live
                       in if finalKeySize \<noteq> tempKeySize then (Some SizeMismatch, st)
                          else (None, DEL_zset st tempKey)))"

definition load ::
  "load_env \<Rightarrow> 'j json_ops \<Rightarrow> string \<Rightarrow> unit + row list \<Rightarrow> store \<Rightarrow> (load_error + unit) \<times> store" where
  \<comment> \<open>\<open>exports.load\<close>; the input is the parsed file, or \<open>Inl\<close> when reading or parsing it fails\<close>
  "load env J redisPrefix input st =
     (let st = DEL_zset st tempKey in
      case input of
        Inl u \<Rightarrow> (Inl CsvError, st)
      | Inr rows \<Rightarrow>
          (case load_try env J redisPrefix rows st of
             (None, st') \<Rightarrow> (Inr (), st')
           | (Some e, st') \<Rightarrow> (Inl e, if cleanup_fails env then st' else DEL_zset st' tempKey)))"

section \<open>The lookup engine (serve.js)\<close>

text \<open>
  \<open>isValidIpv4\<close> and \<open>toLong\<close> belong to the \<open>ip-utils\<close> package and \<open>dronebl\<close> is the
  answer of the DNS block list (\<open>None\<close>: not listed, or the query failed); \<open>setex_fails\<close>
  says whether the cache write rejects; the other store commands of a lookup are taken to
  be answered. The cache and the index hold what this program writes: the marker
  \<open>null\<close> or the JSON text of a payload object.
\<close>

record 'j lookup_env =
  isValidIpv4 :: "string \<Rightarrow> bool"
  toLong :: "string \<Rightarrow> int"
  dronebl :: "string \<Rightarrow> 'j option"
  setex_fails :: bool

datatype 'j answer = Invalid | NotFound | Found "'j payload"

datatype lookup_error = PayloadSyntaxError

definition answer_of :: "'j jvalue \<Rightarrow> 'j answer" where
  "answer_of v = (case v of JNull \<Rightarrow> NotFound | JObject obj \<Rightarrow> Found obj)"

definition cacheTTL :: nat where
  "cacheTTL = 48 * 60 * 60"

definition index_lookup :: "'j json_ops \<Rightarrow> zset \<Rightarrow> int \<Rightarrow> lookup_error + 'j payload option" where
  \<comment> \<open>the range query and the containment check: \<open>redisResult\<close>, or the exception of
      \<open>JSON.parse(lists)\<close>\<close>
  "index_lookup J zs long =
     (case ZRANGEBYSCORE_first zs long of
        [] \<Rightarrow> Inr None
      | item # others \<Rightarrow>
          (let parts = split_on CHR ''|'' item;
               startInt = parseInt (parts ! 0);
               endInt = (if 1 < length parts then parseInt (parts ! 1) else None)
           in case (startInt, endInt) of
                (Some s, Some e) \<Rightarrow>
                  if s \<le> long \<and> long \<le> e then
                    (case (if 2 < length parts then JSON_parse J (parts ! 2) else None) of
                       None \<Rightarrow> Inl PayloadSyntaxError
                     | Some JNull \<Rightarrow> Inr None
                     | Some (JObject obj) \<Rightarrow> Inr (Some obj))
                  else Inr None
              | _ \<Rightarrow> Inr None))"

definition merge_results :: "'j payload option \<Rightarrow> 'j option \<Rightarrow> 'j payload option" where
  \<comment> \<open>the result object: the payload with a \<open>list\<close> array, and the block list's tag pushed on it\<close>
  "merge_results redisResult droneblResult =
     (if redisResult = None \<and> droneblResult = None then None
      else
        let result = (case redisResult of None \<Rightarrow> [(''list'', []), (''geo'', [])] | Some obj \<Rightarrow> obj);
            result = (if ''list'' \<notin> fst ` set result then result @ [(''list'', [])] else result);
            result = (case droneblResult of
                        None \<Rightarrow> result
                      | Some d \<Rightarrow> map (\<lambda>(k, v). if k = ''list'' then (k, v @ [d]) else (k, v)) result)
        in Some result)"

definition fresh_lookup ::
  "'j lookup_env \<Rightarrow> 'j json_ops \<Rightarrow> string \<Rightarrow> store \<Rightarrow> string \<Rightarrow> string \<Rightarrow> bool
     \<Rightarrow> (lookup_error + 'j answer) \<times> store" where
  \<comment> \<open>\<open>lookupIP\<close> after a cache miss\<close>
  "fresh_lookup env J redisPrefix st cacheKey ip includeDroneBL =
     (let long = toLong env ip;
          droneblResult = (if includeDroneBL then dronebl env ip else None)
      in case index_lookup J (zsets st (redisPrefix @ ''ranges'')) long of
           Inl err \<Rightarrow> (Inl err, st)
         | Inr redisResult \<Rightarrow>
             (let result = merge_results redisResult droneblResult;
                  cacheValue = (case result of None \<Rightarrow> ''null'' | Some obj \<Rightarrow> JSON_stringify J obj);
                  st' = (if setex_fails env then st else SETEX st cacheKey cacheTTL cacheValue)
              in (Inr (case result of None \<Rightarrow> NotFound | Some obj \<Rightarrow> Found obj), st')))"

definition lookupIP ::
  "'j lookup_env \<Rightarrow> 'j json_ops \<Rightarrow> string \<Rightarrow> store \<Rightarrow> string \<Rightarrow> bool
     \<Rightarrow> (lookup_error + 'j answer) \<times> store" where
  "lookupIP env J redisPrefix st ip includeDroneBL =
     (if \<not> isValidIpv4 env ip then (Inr Invalid, st)
      else
        let cacheKey = redisPrefix @ ''cache:'' @ ip @ (if includeDroneBL then '':dronebl'' else [])
        in case GET st cacheKey of
             None \<Rightarrow> fresh_lookup env J redisPrefix st cacheKey ip includeDroneBL
           | Some cachedResult \<Rightarrow>
               if cachedResult = ''null'' then (Inr NotFound, st)
               else (case JSON_parse J cachedResult of
                       Some v \<Rightarrow> (Inr (answer_of v), st)
                     | None \<Rightarrow> fresh_lookup env J redisPrefix st cacheKey ip includeDroneBL))"

section \<open>What the inputs cover\<close>

definition tags_at :: "row list \<Rightarrow> int \<Rightarrow> string list" where
  \<comment> \<open>the tags of the input intervals that contain the coordinate\<close>
  "tags_at rows x = map (\<lambda>(a, b, t). t) (filter (\<lambda>(a, b, t). a \<le> x \<and> x \<le> b) rows)"

definition record_at :: "'j interval_record list \<Rightarrow> int \<Rightarrow> 'j interval_record option" where
  \<comment> \<open>the first record whose interval contains the coordinate\<close>
  "record_at recs x = find (\<lambda>(n, m, data). n \<le> x \<and> x \<le> m) recs"

definition index_of :: "'j json_ops \<Rightarrow> 'j interval_record list \<Rightarrow> zset" where
  \<comment> \<open>the sorted set that holds every record as a member, at the score of its end\<close>
  "index_of J recs = foldl (\<lambda>zs r. ZADD zs (member_of J r) (fst (snd r))) [] recs"

definition ascending :: "'j interval_record list \<Rightarrow> bool" where
  \<comment> \<open>non-empty intervals, each ending before the next one starts\<close>
  "ascending recs =
     (sorted_wrt (\<lambda>r r'. fst (snd r) < fst r') recs \<and> list_all (\<lambda>r. fst r \<le> fst (snd r)) recs)"

section \<open>What the validation checks on a line\<close>

definition header_found :: "string \<Rightarrow> bool" where
  "header_found line =
     (str_includes line ''start_int'' \<and> str_includes line ''end_int'' \<and> str_includes line ''list'')"

definition data_line_ok :: "string \<Rightarrow> bool" where
  "data_line_ok line =
     (length (split_on CHR ''|'' line) = 3 \<and>
      parseInt (split_on CHR ''|'' line ! 0) \<noteq> None \<and>
      parseInt (split_on CHR ''|'' line ! 1) \<noteq> None)"

section \<open>Where a record can start\<close>

definition lo :: "event \<Rightarrow> int" where
  \<comment> \<open>the first coordinate a record that starts at this event can have\<close>
  "lo c = (if ev_e c then ev_n c + 1 else ev_n c)"

section \<open>Sample inputs\<close>

definition lock_store :: "string \<Rightarrow> store" where
  \<comment> \<open>a store that holds nothing but the update lock, with the given value\<close>
  "lock_store v =
     \<lparr>strings = [''ip_lists:update_lock'' \<mapsto> (v, Some 3600)], zsets = (\<lambda>k. []), rlists = (\<lambda>k. [])\<rparr>"

definition this_process :: proc_env where
  "this_process = \<lparr>pid = 4242, now = 1700000000000, kill0 = (\<lambda>p. if p = 4242 then Delivered else ESRCH)\<rparr>"

definition sample_line :: string where
  \<open>sample_line = ''167772160|167772415|{"type":"list","name":"a"}''\<close>

definition good_csv :: csv_file where
  \<comment> \<open>the header and ten well-formed data lines\<close>
  "good_csv = \<lparr>fsize = 493, flines = ''start_int|end_int|list'' # replicate 10 sample_line\<rparr>"

definition bad_tenth_csv :: csv_file where
  \<comment> \<open>the header, nine well-formed data lines, and a tenth data line with one field\<close>
  "bad_tenth_csv =
     \<lparr>fsize = 454, flines = ''start_int|end_int|list'' # replicate 9 sample_line @ [''garbage'']\<rparr>"

definition sample_fs :: filesystem where
  \<comment> \<open>a live CSV from an earlier update, and a freshly merged temporary file\<close>
  "sample_fs = [''ipFile'' \<mapsto> bad_tenth_csv, ''ipFile.tmp'' \<mapsto> good_csv]"

text \<open>
  A small JSON for the samples: three tags with their decoding, the serialisation of a
  payload object, and a parser that knows the \<open>null\<close> marker and the given payloads.
\<close>

definition tag_T1 :: string where
  \<open>tag_T1 = ''{"type":"list","name":"T1"}''\<close>

definition tag_T2 :: string where
  \<open>tag_T2 = ''{"type":"list","name":"T2"}''\<close>

definition tag_U :: string where
  \<open>tag_U = ''{"type":"asn","name":"U"}''\<close>

definition sample_decode :: "string \<Rightarrow> (string \<times> string) option" where
  \<open>sample_decode i =
     (if i = tag_T1 then Some (''list'', ''{"name":"T1"}'')
      else if i = tag_T2 then Some (''list'', ''{"name":"T2"}'')
      else if i = tag_U then Some (''asn'', ''{"name":"U"}'')
      else None)\<close>

fun join :: "string \<Rightarrow> string list \<Rightarrow> string" where
  "join sep [] = []"
| "join sep [x] = x"
| "join sep (x # y # r) = x @ sep @ join sep (y # r)"

definition sample_stringify :: "string payload \<Rightarrow> string" where
  \<open>sample_stringify obj =
     ''{'' @ join '','' (map (\<lambda>(k, v). ''"'' @ k @ ''":['' @ join '','' v @ '']'') obj) @ ''}''\<close>

definition sample_parse :: "string payload list \<Rightarrow> string \<Rightarrow> string jvalue option" where
  "sample_parse known s =
     (if s = ''null'' then Some JNull
      else map_option JObject (find (\<lambda>obj. sample_stringify obj = s) known))"

definition sample_json :: "string payload list \<Rightarrow> string json_ops" where
  "sample_json known =
     \<lparr>decode_tag = sample_decode, JSON_stringify = sample_stringify,
      JSON_parse = sample_parse known\<rparr>"

text \<open>
  A loader environment in which nothing goes wrong, a store that serves one record from
  an earlier load, and a lookup environment with a dotted-quad reader.
\<close>

definition quiet_env :: load_env where
  "quiet_env =
     \<lparr>meta_fails = False, meta_entry = (\<lambda>k. ''{}''), zadd_fails = (\<lambda>member. False),
      interference = (\<lambda>zs. zs), cleanup_fails = False\<rparr>"

definition payload_T1 :: "string payload" where
  \<open>payload_T1 = [(''list'', [''{"name":"T1"}''])]\<close>

definition served_store :: store where
  \<comment> \<open>the live index holds the record of 10.0.0.0/24 with the tag T1; the cache is empty\<close>
  \<open>served_store =
     \<lparr>strings = Map.empty,
      zsets = (\<lambda>k. if k = ''ip_lists:ranges''
                    then [(''167772160|167772415|{"list":[{"name":"T1"}]}'', 167772415)] else []),
      rlists = (\<lambda>k. [])\<rparr>\<close>

definition octets :: "string \<Rightarrow> nat list option" where
  "octets ip =
     (let parts = split_on CHR ''.'' ip in
      if length parts = 4 \<and>
         list_all (\<lambda>p. p \<noteq> [] \<and> list_all (is_digit 10) p \<and> radix_value 10 0 p \<le> 255) parts
      then Some (map (radix_value 10 0) parts) else None)"

definition sample_lookup_env :: "string lookup_env" where
  "sample_lookup_env =
     \<lparr>isValidIpv4 = (\<lambda>ip. octets ip \<noteq> None),
      toLong = (\<lambda>ip. case octets ip of None \<Rightarrow> 0 | Some os \<Rightarrow> int (fold (\<lambda>oct acc. acc * 256 + oct) os 0)),
      dronebl = (\<lambda>ip. None),
      setex_fails = False\<rparr>"

definition empty_store :: store where
  "empty_store = \<lparr>strings = Map.empty, zsets = (\<lambda>k. []), rlists = (\<lambda>k. [])\<rparr>"



definition payload_U :: "string payload" where
  \<open>payload_U = [(''asn'', [''{"name":"U"}''])]\<close>

section \<open>Facts about strings and numerals\<close>

lemmas show_nat_numeral [simp] =
  show_nat.simps [of 0] show_nat.simps [of 1] show_nat.simps [of "Suc 0"]
  show_nat.simps [of "numeral k"] for k

lemma char_of_digit [simp]:
  "char_of (48::nat) = CHR ''0''" "char_of (49::nat) = CHR ''1''" "char_of (50::nat) = CHR ''2''"
  "char_of (51::nat) = CHR ''3''" "char_of (52::nat) = CHR ''4''" "char_of (53::nat) = CHR ''5''"
  "char_of (54::nat) = CHR ''6''" "char_of (55::nat) = CHR ''7''" "char_of (56::nat) = CHR ''8''"
  "char_of (57::nat) = CHR ''9''"
  by code_simp+

lemma split_on_nonempty: "split_on c s \<noteq> []"
  by (induction s) (auto split: list.splits)

lemma split_on_hd: "hd (split_on c s) = takeWhile (\<lambda>x. x \<noteq> c) s"
  by (induction s) (auto simp: split_on_nonempty split: list.splits)

lemma split_on_append:
  "c \<notin> set a \<Longrightarrow> split_on c (a @ c # r) = a # split_on c r"
  by (induction a) (auto simp: split_on_nonempty split: list.splits)

lemma digit_of_char_of: "(d::nat) < 10 \<Longrightarrow> digit_of (char_of (48 + d)) = Some d"
  by (simp add: digit_of_def Let_def)

lemma is_digit_char_of: "(d::nat) < 10 \<Longrightarrow> is_digit 10 (char_of (48 + d))"
  by (simp add: is_digit_def digit_of_char_of)

lemma show_nat_nonempty: "show_nat n \<noteq> []"
  by (induction n rule: show_nat.induct) (subst show_nat.simps, simp)

lemma show_nat_digits: "c \<in> set (show_nat n) \<Longrightarrow> is_digit 10 c"
proof (induction n rule: show_nat.induct)
  case (1 n)
  show ?case
  proof (cases "n < 10")
    case True
    with "1.prems" show ?thesis
      by (subst (asm) show_nat.simps) (simp add: is_digit_char_of)
  next
    case False
    with "1.prems" have "c \<in> set (show_nat (n div 10)) \<or> c = char_of (48 + n mod 10)"
      by (subst (asm) show_nat.simps) auto
    then show ?thesis
      using "1.IH" False by (auto simp: is_digit_char_of)
  qed
qed

lemma radix_value_append:
  "radix_value R acc (xs @ ys) = radix_value R (radix_value R acc xs) ys"
  by (induction xs arbitrary: acc) auto

lemma radix_value_show_nat: "radix_value 10 0 (show_nat n) = n"
proof (induction n rule: show_nat.induct)
  case (1 n)
  show ?case
  proof (cases "n < 10")
    case True
    then show ?thesis by (subst show_nat.simps) (simp add: digit_of_char_of)
  next
    case False
    then have "radix_value 10 0 (show_nat n) =
        radix_value 10 (radix_value 10 0 (show_nat (n div 10))) [char_of (48 + n mod 10)]"
      by (subst show_nat.simps) (simp add: radix_value_append)
    also have "\<dots> = (n div 10) * 10 + n mod 10"
      using "1.IH" False by (simp add: digit_of_char_of)
    finally show ?thesis by simp
  qed
qed

lemma is_digit_10_facts:
  "is_digit 10 c \<Longrightarrow> \<not> is_space c \<and> c \<noteq> CHR ''-'' \<and> c \<noteq> CHR ''+'' \<and> c \<noteq> CHR ''|'' \<and> c \<noteq> CHR ''x'' \<and> c \<noteq> CHR ''X''"
  by (auto simp: is_digit_def digit_of_def is_space_def Let_def split: if_splits)

lemma is_prefix_set: "is_prefix p s \<Longrightarrow> set p \<subseteq> set s"
  by (induction p s rule: is_prefix.induct) auto

lemma not_prefix_0x:
  assumes "\<And>c. c \<in> set s \<Longrightarrow> is_digit 10 c"
  shows "\<not> is_prefix ''0x'' s" and "\<not> is_prefix ''0X'' s"
proof -
  have "CHR ''x'' \<notin> set s" "CHR ''X'' \<notin> set s"
    using assms is_digit_10_facts by blast+
  then show "\<not> is_prefix ''0x'' s" and "\<not> is_prefix ''0X'' s"
    using is_prefix_set [of "''0x''" s] is_prefix_set [of "''0X''" s] by auto
qed

lemma takeWhile_digits_show_nat: "takeWhile (is_digit 10) (show_nat n) = show_nat n"
  by (rule takeWhile_eq_all_conv [THEN iffD2]) (simp add: show_nat_digits)

lemma parse_digits_show_nat: "parse_digits 10 sg (show_nat n) = Some (sg * int n)"
  by (simp add: parse_digits_def Let_def takeWhile_digits_show_nat show_nat_nonempty
      radix_value_show_nat)

lemma dropWhile_space_show_nat: "dropWhile is_space (show_nat n @ r) = show_nat n @ r"
  using show_nat_nonempty [of n] show_nat_digits [of _ n]
  by (cases "show_nat n") (auto dest: is_digit_10_facts)

lemma strip_sign_show_nat: "strip_sign (show_nat n) = (1, show_nat n)"
  using show_nat_nonempty [of n] show_nat_digits [of _ n]
  by (cases "show_nat n") (auto simp: strip_sign_def dest: is_digit_10_facts)

lemma parseInt10_show_nat: "parseInt10 (show_nat n) = Some (int n)"
  using dropWhile_space_show_nat [of n "[]"]
  by (simp add: parseInt10_def strip_sign_show_nat parse_digits_show_nat)

lemma parseInt_show_nat: "parseInt (show_nat n) = Some (int n)"
  using dropWhile_space_show_nat [of n "[]"] not_prefix_0x [of "show_nat n"]
  by (simp add: parseInt_def strip_sign_show_nat parse_digits_show_nat show_nat_digits del: is_prefix.simps)

lemma parseInt_show_int: "parseInt (show_int i) = Some i"
proof (cases "i < 0")
  case True
  have "is_space CHR ''-'' = False" by (simp add: is_space_def)
  then show ?thesis
    using True not_prefix_0x [of "show_nat (nat (- i))"]
    by (simp add: show_int_def parseInt_def strip_sign_def parse_digits_show_nat show_nat_digits del: is_prefix.simps)
next
  case False
  then show ?thesis by (simp add: show_int_def parseInt_show_nat)
qed

lemma show_int_no_bar: "CHR ''|'' \<notin> set (show_int i)"
  by (auto simp: show_int_def dest: show_nat_digits is_digit_10_facts)

section \<open>The update lock: releasing and staleness\<close>

lemma dropWhile_append_stop:
  "\<not> P c \<Longrightarrow> dropWhile P (xs @ c # ys) = dropWhile P xs @ c # ys"
  by (simp add: dropWhile_append)

lemma trim_keeps_head:
  assumes "d \<noteq> []" and "\<And>x. x \<in> set d \<Longrightarrow> \<not> is_space x" and "\<not> is_space c"
  shows "trim (d @ c # r) = d @ c # rev (dropWhile is_space (rev r))"
proof -
  obtain x d' where d: "d = x # d'" using assms(1) by (cases d) auto
  then have "\<not> is_space x" using assms(2) by simp
  then have "dropWhile is_space (d @ c # r) = d @ c # r" by (simp add: d)
  moreover have "dropWhile is_space (rev r @ c # rev d) = dropWhile is_space (rev r) @ c # rev d"
    using assms(3) by (rule dropWhile_append_stop)
  ultimately show ?thesis by (simp add: trim_def)
qed

lemma trim_minus_head: "trim (CHR ''-'' # r) = CHR ''-'' # rev (dropWhile is_space (rev r))"
proof -
  have ns: "\<not> is_space CHR ''-''" by (simp add: is_space_def)
  then have "dropWhile is_space (rev r @ [CHR ''-'']) = dropWhile is_space (rev r) @ [CHR ''-'']"
    using dropWhile_append_stop [of is_space "CHR ''-''" "rev r" "[]"] by simp
  then show ?thesis using ns by (simp add: trim_def)
qed

lemma parseInt10_empty: "parseInt10 [] = None"
  by (simp add: parseInt10_def strip_sign_def parse_digits_def)

lemma show_nat_plain:
  "x \<in> set (show_nat n) \<Longrightarrow> \<not> is_space x \<and> x \<noteq> CHR ''-'' \<and> x \<noteq> CHR ''|''"
  using show_nat_digits is_digit_10_facts by blast

lemma minus_not_space: "\<not> is_space CHR ''-''"
  by (simp add: is_space_def)

lemma takeWhile_stop: "(\<And>x. x \<in> set xs \<Longrightarrow> P x) \<Longrightarrow> \<not> P c \<Longrightarrow> takeWhile P (xs @ c # r) = xs"
  by (induction xs) auto

lemma own_pid_parts:
  "parseInt10 (hd (split_on CHR ''-'' (trim (show_int p @ ''-'' @ r)))) = None \<or>
   parseInt10 (hd (split_on CHR ''-'' (trim (show_int p @ ''-'' @ r)))) = Some p"
proof (cases "p < 0")
  case True
  then have "trim (show_int p @ ''-'' @ r) =
      CHR ''-'' # rev (dropWhile is_space (rev (show_nat (nat (- p)) @ ''-'' @ r)))"
    by (simp add: show_int_def trim_minus_head)
  then show ?thesis by (simp add: split_on_hd parseInt10_empty)
next
  case False
  have "trim (show_nat (nat p) @ CHR ''-'' # r) =
      show_nat (nat p) @ CHR ''-'' # rev (dropWhile is_space (rev r))"
    using show_nat_plain [of _ "nat p"]
    by (intro trim_keeps_head) (auto simp: show_nat_nonempty minus_not_space)
  moreover have "takeWhile (\<lambda>x. x \<noteq> CHR ''-'') (show_nat (nat p) @ CHR ''-'' # r') = show_nat (nat p)" for r'
    using show_nat_plain [of _ "nat p"] by (intro takeWhile_stop) auto
  ultimately show ?thesis
    using False by (simp add: show_int_def split_on_hd parseInt10_show_nat)
qed

text \<open>
  C7, as amended. \<open>releaseLock\<close> compares the stored value with the caller's value after
  trimming the latter: it deletes the lock and answers \<open>true\<close> exactly when the caller's
  value is not empty, the store answers, and the stored value equals the trimmed value;
  in every other case it answers \<open>false\<close> and the store is as it was.
\<close>

theorem releaseLock_compares_trimmed:
  "releaseLock up st lockKey lockValue =
     (if lockValue \<noteq> [] \<and> up \<and> GET st lockKey = Some (trim lockValue)
      then (True, DEL_string st lockKey) else (False, st))
   \<and> GET (DEL_string st lockKey) lockKey = None"
  by (simp add: releaseLock_def compare_and_delete_def GET_def DEL_string_def)

text \<open>
  The claim as stated fails where trimming changes the caller's value: the stored value
  \<open>4242-1700000000000\<close> differs from the caller's value with a leading blank, and the lock
  is released all the same.
\<close>

theorem releaseLock_counterexample:
  "\<not> (fst (releaseLock True (lock_store ''4242-1700000000000'') ''ip_lists:update_lock''
              '' 4242-1700000000000'')
      \<longleftrightarrow> GET (lock_store ''4242-1700000000000'') ''ip_lists:update_lock''
              = Some '' 4242-1700000000000'')"
  by (simp add: releaseLock_def compare_and_delete_def GET_def lock_store_def trim_def is_space_def)

text \<open>
  C10. When the stored lock value starts with the process's own pid, followed by the
  dash and anything (the timestamp), \<open>isLockStale\<close> answers \<open>false\<close>, and \<open>acquireLock\<close>
  answers \<open>false\<close> without touching the store (or rethrows when the store rejects).
\<close>

theorem own_lock_is_not_stale:
  assumes "GET st lockKey = Some (show_int (pid env) @ ''-'' @ rest)"
  shows "isLockStale env up st lockKey = False \<and>
         acquireLock env up st lockKey ttlSeconds = (if up then Inr (False, st) else Inl RedisError)"
proof -
  have stale: "isLockStale env u st lockKey = False" for u
    using assms own_pid_parts [of "pid env" rest]
    by (auto simp: isLockStale_def Let_def split_on_nonempty)
  have "show_int (pid env) @ ''-'' @ rest \<noteq> []" by simp
  with assms stale show ?thesis
    by (simp add: acquireLock_def Let_def)
qed

theorem own_lock_is_not_stale_witness:
  "GET (lock_store ''4242-1700000000000'') ''ip_lists:update_lock''
     = Some (show_int (pid this_process) @ ''-'' @ show_nat (now this_process))
   \<and> isLockStale this_process True (lock_store ''4242-1700000000000'') ''ip_lists:update_lock'' = False
   \<and> acquireLock this_process True (lock_store ''4242-1700000000000'') ''ip_lists:update_lock'' 3600
     = Inr (False, lock_store ''4242-1700000000000'')"
proof -
  have h: "GET (lock_store ''4242-1700000000000'') ''ip_lists:update_lock''
     = Some (show_int (pid this_process) @ ''-'' @ show_nat (now this_process))"
    by (simp add: GET_def lock_store_def this_process_def show_int_def)
  show ?thesis
    using h own_lock_is_not_stale [OF h, of True 3600] by simp
qed

section \<open>The merger's validation\<close>

lemma scan_lines_data:
  "1 \<le> lc \<Longrightarrow> lc \<le> 10 \<Longrightarrow>
   scan_lines lc hf ls =
     (if list_all data_line_ok (take (10 - lc) ls) then Some (min (lc + length ls) 11, hf) else None)"
proof (induction ls arbitrary: lc)
  case Nil
  then show ?case by simp
next
  case (Cons l ls)
  show ?case
  proof (cases "lc = 10")
    case True
    then show ?thesis by simp
  next
    case False
    with Cons.prems have lc: "1 \<le> Suc lc" "Suc lc \<le> 10" by auto
    have tk: "10 - lc = Suc (10 - Suc lc)"
      using lc by simp
    show ?thesis
      using Cons.IH [OF lc] lc Cons.prems
      by (simp add: tk Let_def data_line_ok_def)
  qed
qed

lemma scan_lines_first: "scan_lines 0 False (l # ls) = scan_lines (Suc 0) (header_found l) ls"
  by (cases "header_found l") (auto simp: header_found_def)

lemma scan_lines_header:
  "scan_lines 0 False (l # ls) =
     (if list_all data_line_ok (take 9 ls) then Some (min (1 + length ls) 11, header_found l) else None)"
  using scan_lines_data [of "Suc 0" "header_found l" ls]
  by (simp only: scan_lines_first) simp

lemma validateCsvFile_iff:
  "validateCsvFile fs path \<longleftrightarrow>
     (\<exists>f l ls. fs path = Some f \<and> 20 \<le> fsize f \<and> flines f = l # ls \<and> header_found l \<and>
        ls \<noteq> [] \<and> list_all data_line_ok (take 9 ls))"
proof (cases "fs path")
  case None
  then show ?thesis by (simp add: validateCsvFile_def)
next
  case (Some f)
  show ?thesis
  proof (cases "flines f")
    case Nil
    with Some show ?thesis by (simp add: validateCsvFile_def)
  next
    case (Cons l ls)
    have "min (1 + length ls) 11 < 2 \<longleftrightarrow> ls = []" by (cases ls) auto
    with Some Cons show ?thesis
      by (auto simp: validateCsvFile_def scan_lines_header simp del: scan_lines.simps)
  qed
qed

lemma paths_differ:
  "csvFile \<noteq> csvFile @ ''.tmp''" "csvFile \<noteq> csvFile @ ''.backup''"
  "csvFile @ ''.backup'' \<noteq> csvFile @ ''.tmp''"
  by simp_all

lemma process_stage_result:
  "process_stage fs csvFile =
     (if validateCsvFile fs (csvFile @ ''.tmp'')
      then (Inr (), fs(csvFile @ ''.backup'' := (if fs csvFile \<noteq> None then fs csvFile
                                                   else fs (csvFile @ ''.backup'')),
                       csvFile := fs (csvFile @ ''.tmp''),
                       csvFile @ ''.tmp'' := None))
      else (Inl CsvValidationFailed, fs(csvFile @ ''.tmp'' := None)))"
  using paths_differ [of csvFile]
  by (auto simp: process_stage_def publish_csv_def renameSync_def Let_def fun_eq_iff)

text \<open>
  C9, as amended. Validation succeeds exactly when the file exists, has at least 20
  bytes, has a first line that contains \<open>start_int\<close>, \<open>end_int\<close> and \<open>list\<close>, has a
  second line, and each of its lines 2 to 10 (the first nine data lines) splits into
  exactly three fields at \<open>|\<close> of which the first two are numbers for \<open>parseInt\<close>. When
  validation fails the update fails with the temporary file removed and the live CSV
  untouched; when it succeeds the live CSV, if present, becomes the backup and the
  temporary file becomes the live CSV.
\<close>

theorem csv_validation_and_swap:
  "(validateCsvFile fs path \<longleftrightarrow>
     (\<exists>f l ls. fs path = Some f \<and> 20 \<le> fsize f \<and> flines f = l # ls \<and> header_found l \<and>
        ls \<noteq> [] \<and> list_all data_line_ok (take 9 ls)))
   \<and> process_stage fs csvFile =
     (if validateCsvFile fs (csvFile @ ''.tmp'')
      then (Inr (), fs(csvFile @ ''.backup'' := (if fs csvFile \<noteq> None then fs csvFile
                                                   else fs (csvFile @ ''.backup'')),
                       csvFile := fs (csvFile @ ''.tmp''),
                       csvFile @ ''.tmp'' := None))
      else (Inl CsvValidationFailed, fs(csvFile @ ''.tmp'' := None)))"
  using validateCsvFile_iff [of fs path] process_stage_result [of fs csvFile] by blast

lemma sample_line_ok: "data_line_ok sample_line"
proof -
  have sp: "split_on CHR ''|'' sample_line =
      [''167772160'', ''167772415'', drop 20 sample_line]"
    by (simp add: sample_line_def)
  have "parseInt ''167772160'' = Some 167772160" "parseInt ''167772415'' = Some 167772415"
    using parseInt_show_nat [of 167772160] parseInt_show_nat [of 167772415] by simp_all
  with sp show ?thesis by (simp add: data_line_ok_def)
qed

lemma sample_header_found: "header_found ''start_int|end_int|list''"
  by (simp add: header_found_def)

lemma good_csv_valid: "validateCsvFile sample_fs ''ipFile.tmp''"
proof -
  have "list_all data_line_ok (take 9 (replicate 10 sample_line))"
    by (simp add: list_all_iff sample_line_ok)
  moreover have "replicate 10 sample_line \<noteq> []" by simp
  ultimately show ?thesis
    using sample_header_found
    by (simp add: validateCsvFile_iff sample_fs_def good_csv_def)
qed

theorem csv_validation_and_swap_witness:
  "validateCsvFile sample_fs ''ipFile.tmp'' \<and>
   process_stage sample_fs ''ipFile'' =
     (Inr (), sample_fs(''ipFile.backup'' := sample_fs ''ipFile'',
                        ''ipFile'' := sample_fs ''ipFile.tmp'', ''ipFile.tmp'' := None))"
proof -
  have live: "sample_fs ''ipFile'' \<noteq> None" by (simp add: sample_fs_def)
  show ?thesis
    using csv_validation_and_swap [of sample_fs "''ipFile.tmp''" "''ipFile''"] good_csv_valid live
    by simp
qed

text \<open>
  The claim as stated fails on the tenth data line, which the loop never reads: a file
  whose eleventh line has a single field passes validation.
\<close>

theorem validateCsvFile_counterexample:
  "validateCsvFile [''ipFile.tmp'' \<mapsto> bad_tenth_csv] ''ipFile.tmp'' \<and>
   length (split_on CHR ''|'' (flines bad_tenth_csv ! 10)) \<noteq> 3"
proof -
  have "list_all data_line_ok (take 9 (replicate 9 sample_line @ [''garbage'']))"
    by (simp add: list_all_iff sample_line_ok)
  moreover have "replicate 9 sample_line @ [''garbage''] \<noteq> []" by simp
  ultimately have "validateCsvFile [''ipFile.tmp'' \<mapsto> bad_tenth_csv] ''ipFile.tmp''"
    using sample_header_found
    by (simp add: validateCsvFile_iff bad_tenth_csv_def)
  moreover have "flines bad_tenth_csv ! 10 = ''garbage''"
    by (simp add: bad_tenth_csv_def nth_append)
  ultimately show ?thesis by simp
qed

section \<open>The flattener on the boundary cases\<close>

lemma uniq_two: "a \<noteq> b \<Longrightarrow> uniq [a, b] = [a, b]"
  by (simp add: uniq_def)

lemma uniq_one: "uniq [a] = [a]"
  by (simp add: uniq_def)

text \<open>
  C4. The events are sorted by coordinate and, at one coordinate, starts before ends
  (\<open>False < True\<close>). So at the shared coordinate 5 the start of the second interval
  comes before the end of the first, and the flattener emits the three records \<open>[1,4]\<close> with the first
  tag, \<open>[5,5]\<close> with both and \<open>[6,10]\<close> with the second, whatever the two (different) tags
  decode to.
\<close>

theorem coincident_endpoints:
  assumes "T1 \<noteq> T2" and "decode_tag J T1 = Some (ty1, j1)" and "decode_tag J T2 = Some (ty2, j2)"
  shows "sorted (map (\<lambda>x. (ev_n x, ev_e x)) (sort_scratch (scratch_of rows)))
       \<and> sort_scratch (scratch_of [(1, 5, T1), (5, 10, T2)]) =
           [\<lparr>ev_n = 1, ev_a = T1, ev_e = False\<rparr>, \<lparr>ev_n = 5, ev_a = T2, ev_e = False\<rparr>,
            \<lparr>ev_n = 5, ev_a = T1, ev_e = True\<rparr>, \<lparr>ev_n = 10, ev_a = T2, ev_e = True\<rparr>]
       \<and> flatten J [(1, 5, T1), (5, 10, T2)] =
           Inr [(1, 4, [(ty1, [j1])]),
                (5, 5, if ty1 = ty2 then [(ty1, [j1, j2])] else [(ty1, [j1]), (ty2, [j2])]),
                (6, 10, [(ty2, [j2])])]"
proof -
  have sorted: "sort_scratch (scratch_of [(1, 5, T1), (5, 10, T2)]) =
           [\<lparr>ev_n = 1, ev_a = T1, ev_e = False\<rparr>, \<lparr>ev_n = 5, ev_a = T2, ev_e = False\<rparr>,
            \<lparr>ev_n = 5, ev_a = T1, ev_e = True\<rparr>, \<lparr>ev_n = 10, ev_a = T2, ev_e = True\<rparr>]"
    by (simp add: sort_scratch_def scratch_of_def)
  have s1: "sweep_step J [] \<lparr>ev_n = 1, ev_a = T1, ev_e = False\<rparr> \<lparr>ev_n = 5, ev_a = T2, ev_e = False\<rparr>
      = Inr ([T1], Some (1, 4, [(ty1, [j1])]))"
    using assms by (simp add: sweep_step_def uniq_one push_data_def)
  have s2: "sweep_step J [T1] \<lparr>ev_n = 5, ev_a = T2, ev_e = False\<rparr> \<lparr>ev_n = 5, ev_a = T1, ev_e = True\<rparr>
      = Inr ([T1, T2], Some (5, 5, if ty1 = ty2 then [(ty1, [j1, j2])] else [(ty1, [j1]), (ty2, [j2])]))"
    using assms by (simp add: sweep_step_def uniq_two push_data_def)
  have s3: "sweep_step J [T1, T2] \<lparr>ev_n = 5, ev_a = T1, ev_e = True\<rparr> \<lparr>ev_n = 10, ev_a = T2, ev_e = True\<rparr>
      = Inr ([T2], Some (6, 10, [(ty2, [j2])]))"
    using assms by (simp add: sweep_step_def uniq_one push_data_def)
  have "sorted (map (\<lambda>x. (ev_n x, ev_e x)) (sort_scratch (scratch_of rows)))"
    by (simp add: sort_scratch_def)
  moreover have "flatten J [(1, 5, T1), (5, 10, T2)] =
           Inr [(1, 4, [(ty1, [j1])]),
                (5, 5, if ty1 = ty2 then [(ty1, [j1, j2])] else [(ty1, [j1]), (ty2, [j2])]),
                (6, 10, [(ty2, [j2])])]"
    unfolding flatten_def sorted by (simp add: s1 s2 s3)
  ultimately show ?thesis using sorted by simp
qed

theorem coincident_endpoints_witness:
  \<open>tag_T1 \<noteq> tag_T2 \<and>
   flatten (sample_json []) [(1, 5, tag_T1), (5, 10, tag_T2)] =
     Inr [(1, 4, [(''list'', [''{"name":"T1"}''])]),
          (5, 5, [(''list'', [''{"name":"T1"}'', ''{"name":"T2"}''])]),
          (6, 10, [(''list'', [''{"name":"T2"}''])])]\<close>
proof -
  have h: "tag_T1 \<noteq> tag_T2" by (simp add: tag_T1_def tag_T2_def)
  have d1: \<open>decode_tag (sample_json []) tag_T1 = Some (''list'', ''{"name":"T1"}'')\<close>
    by (simp add: sample_json_def sample_decode_def)
  have d2: \<open>decode_tag (sample_json []) tag_T2 = Some (''list'', ''{"name":"T2"}'')\<close>
    using h by (simp add: sample_json_def sample_decode_def)
  show ?thesis
    using h coincident_endpoints [OF h d1 d2] by simp
qed

section \<open>Two intervals that carry the same tag\<close>

lemma sample_decode_T1:
  \<open>decode_tag (sample_json known) tag_T1 = Some (''list'', ''{"name":"T1"}'')\<close>
  by (simp add: sample_json_def sample_decode_def)

lemma sample_decode_U:
  \<open>decode_tag (sample_json known) tag_U = Some (''asn'', ''{"name":"U"}'')\<close>
  by (simp add: sample_json_def sample_decode_def tag_U_def tag_T1_def tag_T2_def)

lemma tags_differ: "tag_T1 \<noteq> tag_U" "tag_T1 \<noteq> tag_T2" "tag_T2 \<noteq> tag_U"
  by (simp_all add: tag_T1_def tag_T2_def tag_U_def)

text \<open>
  C1 on the intervals \<open>[1,5]\<close> and \<open>[5,10]\<close> with one and the same tag. When the record
  \<open>[5,5]\<close> is emitted the active tags are replaced by their set, so the end of the first
  interval removes the only copy left: nothing is emitted for \<open>[6,10]\<close>, and coordinate 7,
  which the second interval contains, lies in no record.
\<close>

theorem same_tag_loses_coverage:
  \<open>flatten (sample_json []) [(1, 5, tag_T1), (5, 10, tag_T1)] =
     Inr [(1, 4, [(''list'', [''{"name":"T1"}''])]), (5, 5, [(''list'', [''{"name":"T1"}''])])]
   \<and> tags_at [(1, 5, tag_T1), (5, 10, tag_T1)] 7 = [tag_T1]
   \<and> record_at [(1, 4, [(''list'', [''{"name":"T1"}''])]),
                 (5, 5, [(''list'', [''{"name":"T1"}''])])] 7 = None\<close>
proof -
  have sorted: "sort_scratch (scratch_of [(1, 5, tag_T1), (5, 10, tag_T1)]) =
           [\<lparr>ev_n = 1, ev_a = tag_T1, ev_e = False\<rparr>, \<lparr>ev_n = 5, ev_a = tag_T1, ev_e = False\<rparr>,
            \<lparr>ev_n = 5, ev_a = tag_T1, ev_e = True\<rparr>, \<lparr>ev_n = 10, ev_a = tag_T1, ev_e = True\<rparr>]"
    by (simp add: sort_scratch_def scratch_of_def)
  have s1: \<open>sweep_step (sample_json []) [] \<lparr>ev_n = 1, ev_a = tag_T1, ev_e = False\<rparr>
        \<lparr>ev_n = 5, ev_a = tag_T1, ev_e = False\<rparr>
      = Inr ([tag_T1], Some (1, 4, [(''list'', [''{"name":"T1"}''])]))\<close>
    by (simp add: sweep_step_def uniq_def push_data_def sample_decode_T1)
  have s2: \<open>sweep_step (sample_json []) [tag_T1] \<lparr>ev_n = 5, ev_a = tag_T1, ev_e = False\<rparr>
        \<lparr>ev_n = 5, ev_a = tag_T1, ev_e = True\<rparr>
      = Inr ([tag_T1], Some (5, 5, [(''list'', [''{"name":"T1"}''])]))\<close>
    by (simp add: sweep_step_def uniq_def push_data_def sample_decode_T1)
  have s3: \<open>sweep_step (sample_json []) [tag_T1] \<lparr>ev_n = 5, ev_a = tag_T1, ev_e = True\<rparr>
        \<lparr>ev_n = 10, ev_a = tag_T1, ev_e = True\<rparr> = Inr ([], None)\<close>
    by (simp add: sweep_step_def)
  have \<open>flatten (sample_json []) [(1, 5, tag_T1), (5, 10, tag_T1)] =
     Inr [(1, 4, [(''list'', [''{"name":"T1"}''])]), (5, 5, [(''list'', [''{"name":"T1"}''])])]\<close>
    unfolding flatten_def sorted by (simp add: s1 s2 s3)
  then show ?thesis
    by (simp add: tags_at_def record_at_def)
qed

text \<open>
  C2 on the intervals \<open>[1,10]\<close> and \<open>[5,15]\<close> with one tag and \<open>[1,20]\<close> with another. After
  the record \<open>[5,10]\<close> the shared tag is active once, the end at 10 removes it, and the
  record \<open>[11,15]\<close> carries the other tag alone although \<open>[5,15]\<close> contains it.
\<close>

theorem same_tag_wrong_payload:
  \<open>flatten (sample_json []) [(1, 10, tag_T1), (5, 15, tag_T1), (1, 20, tag_U)] =
     Inr [(1, 4, [(''list'', [''{"name":"T1"}'']), (''asn'', [''{"name":"U"}''])]),
          (5, 10, [(''list'', [''{"name":"T1"}'']), (''asn'', [''{"name":"U"}''])]),
          (11, 15, [(''asn'', [''{"name":"U"}''])]),
          (16, 20, [(''asn'', [''{"name":"U"}''])])]
   \<and> tags_at [(1, 10, tag_T1), (5, 15, tag_T1), (1, 20, tag_U)] 12 = [tag_T1, tag_U]\<close>
proof -
  let ?J = "sample_json []"
  have sorted: "sort_scratch (scratch_of [(1, 10, tag_T1), (5, 15, tag_T1), (1, 20, tag_U)]) =
           [\<lparr>ev_n = 1, ev_a = tag_T1, ev_e = False\<rparr>, \<lparr>ev_n = 1, ev_a = tag_U, ev_e = False\<rparr>,
            \<lparr>ev_n = 5, ev_a = tag_T1, ev_e = False\<rparr>, \<lparr>ev_n = 10, ev_a = tag_T1, ev_e = True\<rparr>,
            \<lparr>ev_n = 15, ev_a = tag_T1, ev_e = True\<rparr>, \<lparr>ev_n = 20, ev_a = tag_U, ev_e = True\<rparr>]"
    by (simp add: sort_scratch_def scratch_of_def)
  note defs = sweep_step_def uniq_def push_data_def sample_decode_T1 sample_decode_U
  have s1: "sweep_step ?J [] \<lparr>ev_n = 1, ev_a = tag_T1, ev_e = False\<rparr>
        \<lparr>ev_n = 1, ev_a = tag_U, ev_e = False\<rparr> = Inr ([tag_T1], None)"
    by (simp add: defs)
  have s2: \<open>sweep_step ?J [tag_T1] \<lparr>ev_n = 1, ev_a = tag_U, ev_e = False\<rparr>
        \<lparr>ev_n = 5, ev_a = tag_T1, ev_e = False\<rparr>
      = Inr ([tag_T1, tag_U], Some (1, 4, [(''list'', [''{"name":"T1"}'']), (''asn'', [''{"name":"U"}''])]))\<close>
    using tags_differ by (simp add: defs)
  have s3: \<open>sweep_step ?J [tag_T1, tag_U] \<lparr>ev_n = 5, ev_a = tag_T1, ev_e = False\<rparr>
        \<lparr>ev_n = 10, ev_a = tag_T1, ev_e = True\<rparr>
      = Inr ([tag_T1, tag_U], Some (5, 10, [(''list'', [''{"name":"T1"}'']), (''asn'', [''{"name":"U"}''])]))\<close>
    using tags_differ by (simp add: defs)
  have s4: \<open>sweep_step ?J [tag_T1, tag_U] \<lparr>ev_n = 10, ev_a = tag_T1, ev_e = True\<rparr>
        \<lparr>ev_n = 15, ev_a = tag_T1, ev_e = True\<rparr>
      = Inr ([tag_U], Some (11, 15, [(''asn'', [''{"name":"U"}''])]))\<close>
    using tags_differ by (simp add: defs)
  have s5: \<open>sweep_step ?J [tag_U] \<lparr>ev_n = 15, ev_a = tag_T1, ev_e = True\<rparr>
        \<lparr>ev_n = 20, ev_a = tag_U, ev_e = True\<rparr>
      = Inr ([tag_U], Some (16, 20, [(''asn'', [''{"name":"U"}''])]))\<close>
    using tags_differ by (simp add: defs)
  have \<open>flatten ?J [(1, 10, tag_T1), (5, 15, tag_T1), (1, 20, tag_U)] =
     Inr [(1, 4, [(''list'', [''{"name":"T1"}'']), (''asn'', [''{"name":"U"}''])]),
          (5, 10, [(''list'', [''{"name":"T1"}'']), (''asn'', [''{"name":"U"}''])]),
          (11, 15, [(''asn'', [''{"name":"U"}''])]),
          (16, 20, [(''asn'', [''{"name":"U"}''])])]\<close>
    unfolding flatten_def sorted by (simp add: s1 s2 s3 s4 s5)
  then show ?thesis
    by (simp add: tags_at_def)
qed

section \<open>The loader: what a failed load leaves behind\<close>

lemma temp_not_live: "tempKey \<noteq> redisPrefix @ ''ranges''"
proof
  assume "tempKey = redisPrefix @ ''ranges''"
  then have "last tempKey = last (redisPrefix @ ''ranges'')" by simp
  then show False by (simp add: tempKey_def)
qed


declare flatten_loop.simps [simp del]

lemma flatten_loop_step:
  "flatten_loop env J k s pipeline tmp (cur # nex # rest) =
     (case sweep_step J s cur nex of
        Inl err \<Rightarrow> (Some err, fst (batch_start env k pipeline tmp), snd (batch_start env k pipeline tmp))
      | Inr (s', out) \<Rightarrow>
          flatten_loop env J (Suc k) s'
            (case out of None \<Rightarrow> fst (batch_start env k pipeline tmp)
             | Some r \<Rightarrow> fst (batch_start env k pipeline tmp) @ [zadd_of J r])
            (snd (batch_start env k pipeline tmp)) (nex # rest))"
  by (cases "batch_start env k pipeline tmp")
    (simp add: flatten_loop.simps split: sum.splits prod.splits option.splits)

lemma flatten_loop_short:
  "flatten_loop env J k s pipeline tmp [] = (None, pipeline, tmp)"
  "flatten_loop env J k s pipeline tmp [x] = (None, pipeline, tmp)"
  by (simp_all add: flatten_loop.simps)




lemma load_try_strings: "strings (snd (load_try env J redisPrefix rows st)) = strings st"
  by (auto simp: load_try_def Let_def LPUSH_def RENAME_def DEL_zset_def
      split: prod.splits option.splits if_splits)




section \<open>The loader: what a load without store errors publishes\<close>

lemma exec_pipeline_append:
  "fst (exec_pipeline env (a @ b) zs) = fst (exec_pipeline env b (fst (exec_pipeline env a zs)))"
  by (induction a arbitrary: zs) (auto simp: split_def)

lemma exec_pipeline_quiet:
  "(\<And>member. \<not> zadd_fails env member) \<Longrightarrow>
   exec_pipeline env cmds zs = (foldl (\<lambda>zs (member, score). ZADD zs member score) zs cmds, 0)"
  by (induction cmds arbitrary: zs) auto

lemma flatten_loop_sweep_aux:
  "sweep J s (cur # nex # rest) = Inr recs \<Longrightarrow>
   \<exists>p t. flatten_loop env J k s pipeline tmp (cur # nex # rest) = (None, p, t) \<and>
         fst (exec_pipeline env p t) = fst (exec_pipeline env (pipeline @ map (zadd_of J) recs) tmp)"
proof (induction rest arbitrary: k s pipeline tmp cur nex recs)
  case Nil
  then obtain s' out where st: "sweep_step J s cur nex = Inr (s', out)"
    by (auto split: sum.splits)
  with Nil have recs: "recs = (case out of None \<Rightarrow> [] | Some r \<Rightarrow> [r])" by simp
  show ?case
    by (cases "k mod batchSize = 0"; cases out)
      (simp_all add: flatten_loop_step flatten_loop_short st recs batch_start_def exec_pipeline_append)
next
  case (Cons r rest)
  then obtain s' out where st: "sweep_step J s cur nex = Inr (s', out)"
    by (auto split: sum.splits)
  with Cons.prems obtain recs' where rest: "sweep J s' (nex # r # rest) = Inr recs'"
    and recs: "recs = (case out of None \<Rightarrow> recs' | Some x \<Rightarrow> x # recs')"
    by (auto split: sum.splits)
  let ?P = "case out of None \<Rightarrow> fst (batch_start env k pipeline tmp)
            | Some x \<Rightarrow> fst (batch_start env k pipeline tmp) @ [zadd_of J x]"
  let ?T = "snd (batch_start env k pipeline tmp)"
  from Cons.IH [OF rest, of "Suc k" ?P ?T] obtain p t where
    fl: "flatten_loop env J (Suc k) s' ?P ?T (nex # r # rest) = (None, p, t)" and
    ex: "fst (exec_pipeline env p t) = fst (exec_pipeline env (?P @ map (zadd_of J) recs') ?T)"
    by blast
  have step: "flatten_loop env J k s pipeline tmp (cur # nex # r # rest) = (None, p, t)"
    by (simp only: flatten_loop_step [of env J k s pipeline tmp cur nex "r # rest"] st
        sum.case prod.case fl)
  have "fst (exec_pipeline env (?P @ map (zadd_of J) recs') ?T) =
        fst (exec_pipeline env (pipeline @ map (zadd_of J) recs) tmp)"
    by (cases "k mod batchSize = 0"; cases out)
      (simp_all add: recs batch_start_def exec_pipeline_append)
  with step ex show ?case by simp
qed

lemma flatten_loop_sweep:
  assumes "sweep J s evs = Inr recs"
  shows "\<exists>p t. flatten_loop env J k s pipeline tmp evs = (None, p, t) \<and>
         fst (exec_pipeline env p t) = fst (exec_pipeline env (pipeline @ map (zadd_of J) recs) tmp)"
proof (cases evs)
  case Nil
  with assms show ?thesis by (simp add: flatten_loop_short)
next
  case (Cons cur evs')
  show ?thesis
  proof (cases evs')
    case Nil
    with Cons assms show ?thesis by (simp add: flatten_loop_short)
  next
    case (Cons nex rest)
    with \<open>evs = cur # evs'\<close> assms show ?thesis
      using flatten_loop_sweep_aux [of J s cur nex rest recs env k pipeline tmp] by simp
  qed
qed

lemma index_of_exec:
  "foldl (\<lambda>zs (member, score). ZADD zs member score) zs (map (zadd_of J) recs) =
   foldl (\<lambda>zs r. ZADD zs (member_of J r) (fst (snd r))) zs recs"
  by (induction recs arbitrary: zs) (auto simp: zadd_of_def)

lemma load_try_quiet:
  assumes meta: "\<not> meta_fails env" and quiet: "\<And>member. \<not> zadd_fails env member"
    and flat: "flatten J rows = Inr recs" and fresh: "zsets st tempKey = []"
  shows "load_try env J redisPrefix rows st =
     (let st1 = LPUSH st (redisPrefix @ ''ipListSize'') (meta_entry env (length rows));
          idx = index_of J recs;
          st2 = st1\<lparr>zsets := (zsets st1)(redisPrefix @ ''ranges'' := interference env idx)\<rparr>
      in if idx = [] then (Some EmptyTempKey, st1)
         else if length (interference env idx) \<noteq> length idx then (Some SizeMismatch, st2)
         else (None, st2))"
proof -
  let ?st1 = "LPUSH st (redisPrefix @ ''ipListSize'') (meta_entry env (length rows))"
  have t1: "zsets ?st1 tempKey = []" using fresh by (simp add: LPUSH_def)
  from flat obtain p t where
    fl: "flatten_loop env J 0 [] [] [] (sort_scratch (scratch_of rows)) = (None, p, t)" and
    ex: "fst (exec_pipeline env p t) = fst (exec_pipeline env ([] @ map (zadd_of J) recs) [])"
    unfolding flatten_def using flatten_loop_sweep by blast
  have idx: "exec_pipeline env p t = (index_of J recs, 0)"
    using ex exec_pipeline_quiet [OF quiet, of p t] exec_pipeline_quiet [OF quiet, of "map (zadd_of J) recs" "[]"]
    by (simp add: index_of_exec index_of_def)
  have upd: "(zsets ?st1)(tempKey := []) = zsets ?st1"
    using t1 by (simp add: fun_eq_iff)
  show ?thesis
    using meta temp_not_live [of redisPrefix] upd
    by (auto simp: load_try_def Let_def t1 fl idx ZCARD_def RENAME_def DEL_zset_def fun_eq_iff
        intro!: store.equality)
qed

section \<open>The lookup engine: what an answer depends on\<close>

lemma split_on_none: "c \<notin> set s \<Longrightarrow> split_on c s = [s]"
  by (induction s) auto

lemma split_member:
  assumes "CHR ''|'' \<notin> set (JSON_stringify J data)"
  shows "split_on CHR ''|'' (member_of J (n, m, data)) = [show_int n, show_int m, JSON_stringify J data]"
proof -
  have "split_on CHR ''|'' (show_int n @ CHR ''|'' # show_int m @ CHR ''|'' # JSON_stringify J data)
      = show_int n # split_on CHR ''|'' (show_int m @ CHR ''|'' # JSON_stringify J data)"
    by (rule split_on_append) (rule show_int_no_bar)
  also have "split_on CHR ''|'' (show_int m @ CHR ''|'' # JSON_stringify J data)
      = show_int m # split_on CHR ''|'' (JSON_stringify J data)"
    by (rule split_on_append) (rule show_int_no_bar)
  finally show ?thesis
    using assms by (simp add: member_of_def split_on_none)
qed

lemma lookup_answer_cong:
  assumes "strings st = strings st'"
    and "zsets st (redisPrefix @ ''ranges'') = zsets st' (redisPrefix @ ''ranges'')"
  shows "fst (lookupIP lenv J redisPrefix st ip b) = fst (lookupIP lenv J redisPrefix st' ip b)"
  using assms
  by (auto simp: lookupIP_def fresh_lookup_def GET_def Let_def split: option.splits sum.splits)

lemma index_lookup_empty: "index_lookup J [] q = Inr None"
  by (simp add: index_lookup_def ZRANGEBYSCORE_first_def)

lemma lookup_empty_index:
  assumes "zsets st (redisPrefix @ ''ranges'') = []" and "isValidIpv4 lenv ip"
    and "GET st (redisPrefix @ ''cache:'' @ ip) = None"
  shows "fst (lookupIP lenv J redisPrefix st ip False) = Inr NotFound"
  using assms
  by (simp add: lookupIP_def fresh_lookup_def Let_def index_lookup_empty merge_results_def)

lemma load_strings: "strings (snd (load env J redisPrefix input st)) = strings st"
proof (cases input)
  case (Inl u)
  then show ?thesis by (simp add: load_def DEL_zset_def)
next
  case (Inr rows)
  have "strings (snd (load_try env J redisPrefix rows (DEL_zset st tempKey))) = strings st"
    by (simp add: load_try_strings DEL_zset_def)
  with Inr show ?thesis
    by (auto simp: load_def Let_def DEL_zset_def split: prod.splits option.splits)
qed

lemma load_empty_result:
  "fst (load env J redisPrefix (Inr []) st) = Inl (if meta_fails env then RedisFailure else EmptyTempKey)
   \<and> zsets (snd (load env J redisPrefix (Inr []) st)) (redisPrefix @ ''ranges'')
       = zsets st (redisPrefix @ ''ranges'')"
  using temp_not_live [of redisPrefix]
  by (simp add: load_def load_try_def Let_def DEL_zset_def LPUSH_def ZCARD_def
      sort_scratch_def scratch_of_def flatten_loop_short)

section \<open>Empty input and failed loads\<close>

lemma sample_ip:
  "isValidIpv4 sample_lookup_env ''10.0.0.3''"
  "toLong sample_lookup_env ''10.0.0.3'' = 167772163"
  by (simp_all add: sample_lookup_env_def octets_def is_digit_def digit_of_def)

lemma served_member:
  \<open>''167772160|167772415|{"list":[{"name":"T1"}]}'' =
     member_of (sample_json known) (167772160, 167772415, payload_T1)\<close>
  by (simp add: member_of_def show_int_def sample_json_def sample_stringify_def payload_T1_def)

lemma index_lookup_hit:
  assumes "ZRANGEBYSCORE_first zs q = [member_of J (n, m, data)]"
    and "CHR ''|'' \<notin> set (JSON_stringify J data)"
    and "JSON_parse J (JSON_stringify J data) = Some (JObject data)"
  shows "index_lookup J zs q = Inr (if n \<le> q \<and> q \<le> m then Some data else None)"
  using assms by (simp add: index_lookup_def split_member parseInt_show_int Let_def)

lemma sample_payload_T1:
  "CHR ''|'' \<notin> set (JSON_stringify (sample_json [payload_T1]) payload_T1)"
  "JSON_parse (sample_json [payload_T1]) (JSON_stringify (sample_json [payload_T1]) payload_T1)
     = Some (JObject payload_T1)"
  by (simp_all add: sample_json_def sample_stringify_def sample_parse_def payload_T1_def)

lemma served_lookup:
  "fst (lookupIP sample_lookup_env (sample_json [payload_T1]) ''ip_lists:'' served_store ''10.0.0.3'' False)
     = Inr (Found payload_T1)"
proof -
  have "ZRANGEBYSCORE_first (zsets served_store ''ip_lists:ranges'') 167772163 =
      [member_of (sample_json [payload_T1]) (167772160, 167772415, payload_T1)]"
    unfolding served_member [of "[payload_T1]", symmetric]
    by (simp add: served_store_def ZRANGEBYSCORE_first_def)
  then have "index_lookup (sample_json [payload_T1]) (zsets served_store ''ip_lists:ranges'') 167772163
      = Inr (Some payload_T1)"
    using index_lookup_hit sample_payload_T1 by fastforce
  moreover have "GET served_store ''ip_lists:cache:10.0.0.3'' = None"
    by (simp add: GET_def served_store_def)
  ultimately show ?thesis
    using sample_ip
    by (simp add: lookupIP_def fresh_lookup_def merge_results_def Let_def payload_T1_def)
qed

text \<open>
  C5, as amended. On an empty input the loader fails: it finds the temporary key empty
  and throws before the rename (or fails earlier, when the metadata commands reject).
  The live index is the one it was, so a lookup after the load answers as it did before
  it; it answers \<open>NotFound\<close> when the live index was empty and nothing is cached for the
  address.
\<close>

theorem load_empty_input:
  "fst (load env J redisPrefix (Inr []) st) = Inl (if meta_fails env then RedisFailure else EmptyTempKey)
   \<and> zsets (snd (load env J redisPrefix (Inr []) st)) (redisPrefix @ ''ranges'')
       = zsets st (redisPrefix @ ''ranges'')
   \<and> fst (lookupIP lenv J redisPrefix (snd (load env J redisPrefix (Inr []) st)) ip b)
       = fst (lookupIP lenv J redisPrefix st ip b)
   \<and> (zsets st (redisPrefix @ ''ranges'') = [] \<and> isValidIpv4 lenv ip \<and>
        GET st (redisPrefix @ ''cache:'' @ ip) = None \<longrightarrow>
      fst (lookupIP lenv J redisPrefix (snd (load env J redisPrefix (Inr []) st)) ip False)
        = Inr NotFound)"
proof -
  let ?st' = "snd (load env J redisPrefix (Inr []) st)"
  have same: "fst (lookupIP lenv J redisPrefix ?st' ip c) = fst (lookupIP lenv J redisPrefix st ip c)" for c
    by (rule lookup_answer_cong) (simp_all add: load_strings load_empty_result)
  then show ?thesis
    using load_empty_result [of env J redisPrefix st] lookup_empty_index [of st redisPrefix lenv ip J]
    by simp
qed

theorem load_empty_input_witness:
  "fst (load quiet_env (sample_json []) ''ip_lists:'' (Inr []) empty_store) = Inl EmptyTempKey
   \<and> fst (lookupIP sample_lookup_env (sample_json []) ''ip_lists:''
           (snd (load quiet_env (sample_json []) ''ip_lists:'' (Inr []) empty_store)) ''10.0.0.3'' False)
       = Inr NotFound"
proof -
  have "zsets empty_store (''ip_lists:'' @ ''ranges'') = []"
    "GET empty_store (''ip_lists:'' @ ''cache:'' @ ''10.0.0.3'') = None"
    "\<not> meta_fails quiet_env"
    by (simp_all add: empty_store_def GET_def quiet_env_def)
  then show ?thesis
    using sample_ip(1)
      load_empty_input [of quiet_env "sample_json []" "''ip_lists:''" empty_store
        sample_lookup_env "''10.0.0.3''" False]
    by auto
qed

text \<open>
  The claim as stated fails when an earlier load is live: the empty input leaves that
  index in place, and the lookup of an address in it still finds its record.
\<close>

theorem load_empty_input_counterexample:
  "zsets (snd (load quiet_env (sample_json [payload_T1]) ''ip_lists:'' (Inr []) served_store))
      ''ip_lists:ranges'' \<noteq> []
   \<and> fst (lookupIP sample_lookup_env (sample_json [payload_T1]) ''ip_lists:''
           (snd (load quiet_env (sample_json [payload_T1]) ''ip_lists:'' (Inr []) served_store))
           ''10.0.0.3'' False)
       = Inr (Found payload_T1)"
proof -
  let ?J = "sample_json [payload_T1]"
  let ?st' = "snd (load quiet_env ?J ''ip_lists:'' (Inr []) served_store)"
  have live: "zsets ?st' ''ip_lists:ranges'' = zsets served_store ''ip_lists:ranges''"
    using load_empty_result [of quiet_env ?J "''ip_lists:''" served_store] by simp
  have "fst (lookupIP sample_lookup_env ?J ''ip_lists:'' ?st' ''10.0.0.3'' False)
      = fst (lookupIP sample_lookup_env ?J ''ip_lists:'' served_store ''10.0.0.3'' False)"
    by (rule lookup_answer_cong) (simp_all add: load_strings live)
  moreover have "zsets served_store ''ip_lists:ranges'' \<noteq> []"
    by (simp add: served_store_def)
  ultimately show ?thesis
    using live served_lookup by simp
qed

lemma single_row_flatten:
  assumes "decode_tag J t = Some (ty, j)" and "a \<le> b"
  shows "flatten J [(a, b, t)] = Inr [(a, b, [(ty, [j])])]"
  using assms
  by (simp add: flatten_def sort_scratch_def scratch_of_def sweep_step_def uniq_def push_data_def)






section \<open>The result cache\<close>












section \<open>The records of the flattener are disjoint and in ascending order\<close>

lemma sweep_step_record:
  "sweep_step J s cur nex = Inr (s', Some (n, m, data)) \<Longrightarrow> n = lo cur \<and> n \<le> m \<and> m < lo nex"
  by (auto simp: sweep_step_def lo_def Let_def split: if_splits option.splits)

lemma lo_mono: "(ev_n c, ev_e c) \<le> (ev_n c', ev_e c') \<Longrightarrow> lo c \<le> lo c'"
  by (auto simp: lo_def)

lemma sweep_ascending_aux:
  "sorted (map (\<lambda>x. (ev_n x, ev_e x)) (cur # nex # rest)) \<Longrightarrow>
   sweep J s (cur # nex # rest) = Inr recs \<Longrightarrow>
   ascending recs \<and> list_all (\<lambda>r. lo cur \<le> fst r) recs"
proof (induction rest arbitrary: s cur nex recs)
  case Nil
  then obtain s' out where st: "sweep_step J s cur nex = Inr (s', out)"
    by (auto split: sum.splits)
  with Nil.prems(2) have recs: "recs = (case out of None \<Rightarrow> [] | Some r \<Rightarrow> [r])" by simp
  show ?case
  proof (cases out)
    case None
    with recs show ?thesis by (simp add: ascending_def)
  next
    case (Some r)
    obtain n m data where r: "r = (n, m, data)" by (cases r)
    with st Some have "n = lo cur \<and> n \<le> m" using sweep_step_record by blast
    with recs Some r show ?thesis by (simp add: ascending_def)
  qed
next
  case (Cons x rest)
  then obtain s' out where st: "sweep_step J s cur nex = Inr (s', out)"
    by (auto split: sum.splits)
  with Cons.prems(2) obtain recs' where rest: "sweep J s' (nex # x # rest) = Inr recs'"
    and recs: "recs = (case out of None \<Rightarrow> recs' | Some r \<Rightarrow> r # recs')"
    by (auto split: sum.splits)
  from Cons.prems(1) have srt: "sorted (map (\<lambda>x. (ev_n x, ev_e x)) (nex # x # rest))"
    and le: "(ev_n cur, ev_e cur) \<le> (ev_n nex, ev_e nex)"
    by simp_all
  from Cons.IH [OF srt rest] have asc: "ascending recs'" and lower: "list_all (\<lambda>r. lo nex \<le> fst r) recs'"
    by simp_all
  have mono: "lo cur \<le> lo nex" using le by (rule lo_mono)
  show ?case
  proof (cases out)
    case None
    with recs asc lower mono show ?thesis
      by (auto simp: list_all_iff)
  next
    case (Some r)
    obtain n m data where r: "r = (n, m, data)" by (cases r)
    with st Some have nm: "n = lo cur" "n \<le> m" "m < lo nex" using sweep_step_record by blast+
    from lower nm(3) have "\<forall>r' \<in> set recs'. m < fst r'" by (auto simp: list_all_iff)
    with recs Some r asc lower mono nm show ?thesis
      by (auto simp: ascending_def list_all_iff)
  qed
qed

lemma flatten_ascending:
  assumes "flatten J rows = Inr recs"
  shows "ascending recs"
proof -
  let ?evs = "sort_scratch (scratch_of rows)"
  have srt: "sorted (map (\<lambda>x. (ev_n x, ev_e x)) ?evs)"
    by (simp add: sort_scratch_def)
  from assms have sw: "sweep J [] ?evs = Inr recs" by (simp add: flatten_def)
  show ?thesis
  proof (cases ?evs)
    case Nil
    with sw show ?thesis by (simp add: ascending_def)
  next
    case (Cons cur evs')
    show ?thesis
    proof (cases evs')
      case Nil
      with Cons sw show ?thesis by (simp add: ascending_def)
    next
      case (Cons nex rest)
      with \<open>?evs = cur # evs'\<close> srt sw show ?thesis
        using sweep_ascending_aux [of cur nex rest J "[]" recs] by simp
    qed
  qed
qed

lemma ascending_Cons:
  "ascending (r # recs) \<longleftrightarrow>
     fst r \<le> fst (snd r) \<and> (\<forall>r' \<in> set recs. fst (snd r) < fst r') \<and> ascending recs"
  by (auto simp: ascending_def)

lemma record_at_ascending:
  "ascending recs \<Longrightarrow>
   record_at recs q =
     (case find (\<lambda>r. q \<le> fst (snd r)) recs of
        None \<Rightarrow> None
      | Some r \<Rightarrow> if fst r \<le> q then Some r else None)"
proof (induction recs)
  case Nil
  then show ?case by (simp add: record_at_def)
next
  case (Cons r recs)
  obtain n m data where r: "r = (n, m, data)" by (cases r)
  from Cons.prems have asc: "ascending recs" and later: "\<forall>r' \<in> set recs. m < fst r'"
    by (simp_all add: ascending_Cons r)
  show ?case
  proof (cases "q \<le> m")
    case False
    with Cons.IH [OF asc] show ?thesis by (simp add: record_at_def r)
  next
    case True
    show ?thesis
    proof (cases "n \<le> q")
      case True
      with \<open>q \<le> m\<close> show ?thesis by (simp add: record_at_def r)
    next
      case False
      have "find (\<lambda>(n, m, data). n \<le> q \<and> q \<le> m) recs = None"
        using later True by (auto simp: find_None_iff)
      with False True show ?thesis by (simp add: record_at_def r)
    qed
  qed
qed

lemma record_at_unique:
  "ascending recs \<Longrightarrow> r \<in> set recs \<Longrightarrow> fst r \<le> q \<Longrightarrow> q \<le> fst (snd r) \<Longrightarrow>
   record_at recs q = Some r"
proof (induction recs)
  case Nil
  then show ?case by simp
next
  case (Cons x recs)
  obtain n m data where x: "x = (n, m, data)" by (cases x)
  from Cons.prems(1) have asc: "ascending recs" and later: "\<forall>r' \<in> set recs. m < fst r'"
    by (simp_all add: ascending_Cons x)
  show ?case
  proof (cases "n \<le> q \<and> q \<le> m")
    case True
    with Cons.prems later have "r = x" by (auto simp: x)
    with True show ?thesis by (simp add: record_at_def x)
  next
    case False
    with Cons.prems have "r \<in> set recs" by (auto simp: x)
    with Cons.IH [OF asc] Cons.prems have "record_at recs q = Some r" by simp
    with False show ?thesis by (auto simp: record_at_def x)
  qed
qed

section \<open>The index a load publishes, and the range query on it\<close>

lemma ZADD_new: "member \<notin> fst ` set zs \<Longrightarrow> ZADD zs member score = zs @ [(member, score)]"
  by (simp add: ZADD_def)

lemma foldl_ZADD_distinct:
  "distinct (map fst (zs @ cmds)) \<Longrightarrow>
   foldl (\<lambda>zs (member, score). ZADD zs member score) zs cmds = zs @ cmds"
proof (induction cmds arbitrary: zs)
  case Nil
  then show ?case by simp
next
  case (Cons c cmds)
  obtain member score where c: "c = (member, score)" by (cases c)
  from Cons.prems have new: "member \<notin> fst ` set zs" by (auto simp: c)
  from Cons.prems have "distinct (map fst ((zs @ [c]) @ cmds))" by simp
  from Cons.IH [OF this] new show ?case by (simp add: c ZADD_new)
qed

lemma member_of_start:
  "parseInt (hd (split_on CHR ''|'' (member_of J (n, m, data)))) = Some n"
proof -
  have "takeWhile (\<lambda>x. x \<noteq> CHR ''|'') (show_int n @ CHR ''|'' # r) = show_int n" for r
    using show_int_no_bar [of n] by (intro takeWhile_stop) auto
  then show ?thesis by (simp add: member_of_def split_on_hd parseInt_show_int)
qed

lemma member_of_inj: "member_of J r = member_of J r' \<Longrightarrow> fst r = fst r'"
  using member_of_start [of J "fst r" "fst (snd r)" "snd (snd r)"]
    member_of_start [of J "fst r'" "fst (snd r')" "snd (snd r')"]
  by simp

lemma ascending_distinct_starts: "ascending recs \<Longrightarrow> distinct (map fst recs)"
proof (induction recs)
  case Nil
  then show ?case by simp
next
  case (Cons r recs)
  then have "\<forall>r' \<in> set recs. fst r < fst r'" and "ascending recs"
    by (auto simp: ascending_Cons)
  with Cons.IH show ?case by auto
qed

lemma distinct_map_finer:
  assumes "distinct (map f xs)" and "\<And>x y. g x = g y \<Longrightarrow> f x = f y"
  shows "distinct (map g xs)"
proof -
  from assms(1) have d: "distinct xs" and inj: "inj_on f (set xs)"
    by (simp_all add: distinct_map)
  have "inj_on g (set xs)"
  proof (rule inj_onI)
    fix x y assume "x \<in> set xs" "y \<in> set xs" "g x = g y"
    with assms(2) [of x y] inj show "x = y" by (simp add: inj_on_def)
  qed
  with d show ?thesis by (simp add: distinct_map)
qed

lemma index_of_ascending:
  assumes "ascending recs"
  shows "index_of J recs = map (\<lambda>r. (member_of J r, fst (snd r))) recs"
proof -
  have "distinct (map (member_of J) recs)"
    using ascending_distinct_starts [OF assms] member_of_inj
    by (rule distinct_map_finer)
  then have "distinct (map fst ([] @ map (\<lambda>r. (member_of J r, fst (snd r))) recs))"
    by (simp add: comp_def)
  from foldl_ZADD_distinct [OF this] show ?thesis
    by (simp add: index_of_def foldl_map split_def)
qed

lemma arg_min_first:
  "sorted_wrt (\<lambda>a b. snd a < snd b) (x # xs) \<Longrightarrow>
   arg_min_list (\<lambda>(mem, sc). (sc, mem)) (x # xs) = (x :: string \<times> int)"
proof (induction xs arbitrary: x)
  case Nil
  then show ?case by simp
next
  case (Cons y ys)
  then have "arg_min_list (\<lambda>(mem, sc). (sc, mem)) (y # ys) = y" and "snd x < snd y"
    by simp_all
  then show ?case by (simp add: split_def Let_def)
qed

lemma ascending_ends: "ascending recs \<Longrightarrow> sorted_wrt (\<lambda>r r'. fst (snd r) < fst (snd r')) recs"
proof (induction recs)
  case Nil
  then show ?case by simp
next
  case (Cons r recs)
  then have later: "\<forall>r' \<in> set recs. fst (snd r) < fst r'" and asc: "ascending recs"
    by (simp_all add: ascending_Cons)
  from asc have "\<forall>r' \<in> set recs. fst r' \<le> fst (snd r')"
    by (simp add: ascending_def list_all_iff)
  with later have "\<forall>r' \<in> set recs. fst (snd r) < fst (snd r')" by fastforce
  with Cons.IH [OF asc] show ?case by simp
qed

lemma range_query_ascending:
  assumes "ascending recs"
  shows "ZRANGEBYSCORE_first (map (\<lambda>r. (member_of J r, fst (snd r))) recs) q =
     (case find (\<lambda>r. q \<le> fst (snd r)) recs of None \<Rightarrow> [] | Some r \<Rightarrow> [member_of J r])"
  using assms
proof (induction recs)
  case Nil
  then show ?case by (simp add: ZRANGEBYSCORE_first_def)
next
  case (Cons r recs)
  from Cons.prems have asc: "ascending recs" and later: "\<forall>r' \<in> set recs. fst (snd r) < fst r'"
    by (simp_all add: ascending_Cons)
  show ?case
  proof (cases "q \<le> fst (snd r)")
    case False
    with Cons.IH [OF asc] show ?thesis by (simp add: ZRANGEBYSCORE_first_def)
  next
    case True
    let ?tl = "filter (\<lambda>(mem, sc). q \<le> sc) (map (\<lambda>r. (member_of J r, fst (snd r))) recs)"
    have "sorted_wrt (\<lambda>r r'. fst (snd r) < fst (snd r')) (r # recs)"
      using Cons.prems by (rule ascending_ends)
    then have "sorted_wrt (\<lambda>a b. snd a < snd b) (map (\<lambda>r. (member_of J r, fst (snd r))) (r # recs))"
      by (simp add: sorted_wrt_map)
    then have "sorted_wrt (\<lambda>a b. snd a < snd b)
        (filter (\<lambda>(mem, sc). q \<le> sc) (map (\<lambda>r. (member_of J r, fst (snd r))) (r # recs)))"
      by (rule sorted_wrt_filter)
    moreover have "filter (\<lambda>(mem, sc). q \<le> sc) (map (\<lambda>r. (member_of J r, fst (snd r))) (r # recs))
        = (member_of J r, fst (snd r)) # ?tl"
      using True by simp
    ultimately have "sorted_wrt (\<lambda>a b. snd a < snd b) ((member_of J r, fst (snd r)) # ?tl)"
      by (simp only:)
    from arg_min_first [OF this] True show ?thesis
      by (simp add: ZRANGEBYSCORE_first_def)
  qed
qed

section \<open>Lookup after a load\<close>

lemma load_publishes:
  assumes load: "load env J redisPrefix (Inr rows) st0 = (Inr (), st)"
    and quiet: "\<And>member. \<not> zadd_fails env member" "interference env = (\<lambda>zs. zs)"
    and flat: "flatten J rows = Inr recs"
  shows "zsets st (redisPrefix @ ''ranges'') = map (\<lambda>r. (member_of J r, fst (snd r))) recs"
proof -
  let ?st0 = "DEL_zset st0 tempKey"
  from load have tr: "load_try env J redisPrefix rows ?st0 = (None, st)"
    by (auto simp: load_def Let_def split: prod.splits option.splits)
  have meta: "\<not> meta_fails env"
    using tr by (auto simp: load_try_def)
  have fresh: "zsets ?st0 tempKey = []" by (simp add: DEL_zset_def)
  have "zsets st (redisPrefix @ ''ranges'') = index_of J recs"
    using tr load_try_quiet [OF meta quiet(1) flat fresh, of redisPrefix] quiet(2)
    by (auto simp: Let_def split: if_splits)
  then show ?thesis
    using index_of_ascending [OF flatten_ascending [OF flat]] by simp
qed

lemma index_lookup_ascending:
  assumes asc: "ascending recs"
    and json: "\<And>n m data. (n, m, data) \<in> set recs \<Longrightarrow>
        CHR ''|'' \<notin> set (JSON_stringify J data) \<and>
        JSON_parse J (JSON_stringify J data) = Some (JObject data)"
  shows "index_lookup J (map (\<lambda>r. (member_of J r, fst (snd r))) recs) q =
         Inr (map_option (\<lambda>r. snd (snd r)) (record_at recs q))"
proof (cases "find (\<lambda>r. q \<le> fst (snd r)) recs")
  case None
  then have "ZRANGEBYSCORE_first (map (\<lambda>r. (member_of J r, fst (snd r))) recs) q = []"
    by (simp add: range_query_ascending [OF asc])
  then have "index_lookup J (map (\<lambda>r. (member_of J r, fst (snd r))) recs) q = Inr None"
    by (simp add: index_lookup_def)
  with None show ?thesis by (simp add: record_at_ascending [OF asc])
next
  case (Some r)
  obtain n m data where r: "r = (n, m, data)" by (cases r)
  from Some have mem: "r \<in> set recs" and qm: "q \<le> fst (snd r)"
    by (auto simp: find_Some_iff)
  have rq: "ZRANGEBYSCORE_first (map (\<lambda>r. (member_of J r, fst (snd r))) recs) q = [member_of J (n, m, data)]"
    using Some by (simp add: range_query_ascending [OF asc] r)
  from json [of n m data] mem have j: "CHR ''|'' \<notin> set (JSON_stringify J data)"
    "JSON_parse J (JSON_stringify J data) = Some (JObject data)"
    by (simp_all add: r)
  from index_lookup_hit [OF rq j] qm Some show ?thesis
    by (simp add: record_at_ascending [OF asc] r)
qed

lemma merge_payload:
  "merge_results (Some data) None =
     Some (if ''list'' \<in> fst ` set data then data else data @ [(''list'', [])])"
  by (simp add: merge_results_def)

text \<open>
  C3, as amended. Take a load that succeeded with no error reply to a \<open>zadd\<close> and no
  other writer, records whose JSON text has no \<open>|\<close> and parses back to the payload, a valid
  address \<open>q\<close> with nothing cached, and no block list query. Then the live index holds each
  record of the flattener once, at the score of its end; at most one record contains \<open>q\<close>;
  and the lookup answers \<open>NotFound\<close> when none does, and otherwise the payload of that
  record, to which an empty \<open>list\<close> array is added when the payload has none.
\<close>

theorem lookup_after_load:
  assumes load: "load env J redisPrefix (Inr rows) st0 = (Inr (), st)"
    and quiet: "\<And>member. \<not> zadd_fails env member" "interference env = (\<lambda>zs. zs)"
    and flat: "flatten J rows = Inr recs"
    and json: "\<And>n m data. (n, m, data) \<in> set recs \<Longrightarrow>
        CHR ''|'' \<notin> set (JSON_stringify J data) \<and>
        JSON_parse J (JSON_stringify J data) = Some (JObject data)"
    and valid: "isValidIpv4 lenv ip"
    and miss: "GET st (redisPrefix @ ''cache:'' @ ip) = None"
  shows "zsets st (redisPrefix @ ''ranges'') = map (\<lambda>r. (member_of J r, fst (snd r))) recs
       \<and> (\<forall>r \<in> set recs. fst r \<le> toLong lenv ip \<and> toLong lenv ip \<le> fst (snd r) \<longrightarrow>
             record_at recs (toLong lenv ip) = Some r)
       \<and> fst (lookupIP lenv J redisPrefix st ip False) =
           Inr (case record_at recs (toLong lenv ip) of
                  None \<Rightarrow> NotFound
                | Some (n, m, data) \<Rightarrow>
                    Found (if ''list'' \<in> fst ` set data then data else data @ [(''list'', [])]))"
proof -
  let ?q = "toLong lenv ip"
  have asc: "ascending recs" using flat by (rule flatten_ascending)
  have idx: "zsets st (redisPrefix @ ''ranges'') = map (\<lambda>r. (member_of J r, fst (snd r))) recs"
    using load quiet flat by (rule load_publishes)
  have uniq: "\<forall>r \<in> set recs. fst r \<le> ?q \<and> ?q \<le> fst (snd r) \<longrightarrow> record_at recs ?q = Some r"
    using record_at_unique [OF asc] by blast
  have il: "index_lookup J (zsets st (redisPrefix @ ''ranges'')) ?q =
      Inr (map_option (\<lambda>r. snd (snd r)) (record_at recs ?q))"
    unfolding idx using asc json by (rule index_lookup_ascending)
  have "fst (lookupIP lenv J redisPrefix st ip False) =
           Inr (case record_at recs ?q of
                  None \<Rightarrow> NotFound
                | Some (n, m, data) \<Rightarrow>
                    Found (if ''list'' \<in> fst ` set data then data else data @ [(''list'', [])]))"
  proof (cases "record_at recs ?q")
    case None
    with valid miss il show ?thesis
      by (simp add: lookupIP_def fresh_lookup_def Let_def merge_results_def)
  next
    case (Some r)
    obtain n m data where r: "r = (n, m, data)" by (cases r)
    with valid miss il Some show ?thesis
      by (simp add: lookupIP_def fresh_lookup_def Let_def merge_payload)
  qed
  with idx uniq show ?thesis by blast
qed

lemma sample_load:
  assumes d: "decode_tag J t = Some (ty, j)"
  shows "fst (load quiet_env J ''ip_lists:'' (Inr [(167772160, 167772415, t)]) empty_store) = Inr ()"
proof -
  have flat: "flatten J [(167772160, 167772415, t)] = Inr [(167772160, 167772415, [(ty, [j])])]"
    using single_row_flatten [OF d, of 167772160 167772415] by simp
  have env: "\<not> meta_fails quiet_env" "\<And>member. \<not> zadd_fails quiet_env member"
    "interference quiet_env = (\<lambda>zs. zs)"
    by (simp_all add: quiet_env_def)
  have fresh: "zsets (DEL_zset empty_store tempKey) tempKey = []"
    by (simp add: DEL_zset_def)
  show ?thesis
    using load_try_quiet [OF env(1) env(2) flat fresh, of "''ip_lists:''"] env(3)
    by (simp add: load_def Let_def index_of_def ZADD_def)
qed

theorem lookup_after_load_witness:
  "fst (load quiet_env (sample_json [payload_T1]) ''ip_lists:''
         (Inr [(167772160, 167772415, tag_T1)]) empty_store) = Inr ()
   \<and> fst (lookupIP sample_lookup_env (sample_json [payload_T1]) ''ip_lists:''
         (snd (load quiet_env (sample_json [payload_T1]) ''ip_lists:''
                (Inr [(167772160, 167772415, tag_T1)]) empty_store)) ''10.0.0.3'' False)
       = Inr (Found payload_T1)"
proof -
  let ?J = "sample_json [payload_T1]"
  let ?L = "load quiet_env ?J ''ip_lists:'' (Inr [(167772160, 167772415, tag_T1)]) empty_store"
  have ok: "fst ?L = Inr ()"
    using sample_decode_T1 by (rule sample_load)
  then have load: "?L = (Inr (), snd ?L)" by (simp add: prod_eq_iff)
  have env: "\<And>member. \<not> zadd_fails quiet_env member" "interference quiet_env = (\<lambda>zs. zs)"
    by (simp_all add: quiet_env_def)
  have flat: "flatten ?J [(167772160, 167772415, tag_T1)] = Inr [(167772160, 167772415, payload_T1)]"
    using single_row_flatten [OF sample_decode_T1, of 167772160 167772415] by (simp add: payload_T1_def)
  have json: "CHR ''|'' \<notin> set (JSON_stringify ?J data) \<and>
        JSON_parse ?J (JSON_stringify ?J data) = Some (JObject data)"
    if "(n, m, data) \<in> set [(167772160, 167772415, payload_T1)]" for n :: int and m :: int and data
    using that sample_payload_T1 by simp
  have miss: "GET (snd ?L) (''ip_lists:'' @ ''cache:'' @ ''10.0.0.3'') = None"
    by (simp add: GET_def load_strings empty_store_def)
  show ?thesis
    using ok lookup_after_load [OF load env flat json sample_ip(1) miss]
    by (simp add: sample_ip(2) record_at_def payload_T1_def)
qed

text \<open>
  The claim as stated fails for a payload without a \<open>list\<close> property: the record that
  contains the address carries the tag of type \<open>asn\<close> alone, and the lookup answers that
  payload with an empty \<open>list\<close> array added.
\<close>

theorem lookup_after_load_counterexample:
  \<open>flatten (sample_json [payload_U]) [(167772160, 167772415, tag_U)]
      = Inr [(167772160, 167772415, payload_U)]
   \<and> fst (lookupIP sample_lookup_env (sample_json [payload_U]) ''ip_lists:''
         (snd (load quiet_env (sample_json [payload_U]) ''ip_lists:''
                (Inr [(167772160, 167772415, tag_U)]) empty_store)) ''10.0.0.3'' False)
       = Inr (Found [(''asn'', [''{"name":"U"}'']), (''list'', [])])
   \<and> Found [(''asn'', [''{"name":"U"}'']), (''list'', [])] \<noteq> Found payload_U\<close>
proof -
  let ?J = "sample_json [payload_U]"
  let ?L = "load quiet_env ?J ''ip_lists:'' (Inr [(167772160, 167772415, tag_U)]) empty_store"
  have ok: "fst ?L = Inr ()"
    using sample_decode_U by (rule sample_load)
  then have load: "?L = (Inr (), snd ?L)" by (simp add: prod_eq_iff)
  have env: "\<And>member. \<not> zadd_fails quiet_env member" "interference quiet_env = (\<lambda>zs. zs)"
    by (simp_all add: quiet_env_def)
  have flat: "flatten ?J [(167772160, 167772415, tag_U)] = Inr [(167772160, 167772415, payload_U)]"
    using single_row_flatten [OF sample_decode_U, of 167772160 167772415] by (simp add: payload_U_def)
  have idx: "zsets (snd ?L) ''ip_lists:ranges'' = [(member_of ?J (167772160, 167772415, payload_U), 167772415)]"
    using load_publishes [OF load env flat] by simp
  have "ZRANGEBYSCORE_first (zsets (snd ?L) ''ip_lists:ranges'') 167772163
      = [member_of ?J (167772160, 167772415, payload_U)]"
    by (simp add: idx ZRANGEBYSCORE_first_def)
  moreover have "CHR ''|'' \<notin> set (JSON_stringify ?J payload_U)"
    "JSON_parse ?J (JSON_stringify ?J payload_U) = Some (JObject payload_U)"
    by (simp_all add: sample_json_def sample_stringify_def sample_parse_def payload_U_def)
  ultimately have il: "index_lookup ?J (zsets (snd ?L) ''ip_lists:ranges'') 167772163 = Inr (Some payload_U)"
    using index_lookup_hit by fastforce
  have miss: "GET (snd ?L) ''ip_lists:cache:10.0.0.3'' = None"
    by (simp add: GET_def load_strings empty_store_def)
  have \<open>fst (lookupIP sample_lookup_env ?J ''ip_lists:'' (snd ?L) ''10.0.0.3'' False)
       = Inr (Found [(''asn'', [''{"name":"U"}'']), (''list'', [])])\<close>
    using sample_ip miss il
    by (simp add: lookupIP_def fresh_lookup_def Let_def merge_payload payload_U_def)
  with flat show ?thesis by (simp add: payload_U_def)
qed

end
